theory Spec2Isabelle
  imports Main "HOL-Library.Word"
begin

section \<open>Bounty claimer: \<open>ClaimBounty\<close> (cmd/claimBounty.go)\<close>

text \<open>
  Errors are strings (the text of a Go \<open>error\<close>). A \<open>common.Hash\<close> is 32 bytes, read here
  as one 256-bit word; \<open>core.NilHash\<close> and \<open>common.Hash{0x00}\<close> are both the zero hash.
  The epoch and \<open>RedeemAfter\<close> are \<open>uint32\<close>; the bounty amount is a \<open>*big.Int\<close>.
\<close>

type_synonym err = string
type_synonym hash = "256 word"

definition NilHash :: hash where
  "NilHash = 0"

record BountyLock =
  RedeemAfter :: "32 word"
  BountyHunter :: "160 word"
  Amount :: int

text \<open>
  The collaborators \<open>ClaimBounty\<close> calls (\<open>razorUtils\<close>, \<open>stakeManagerUtils\<close>,
  \<open>transactionUtils\<close>) and the constant \<open>core.EpochLength\<close> are parameters of the model.
  \<open>GetTxnOpts\<close> only prepares the options handed on to \<open>RedeemBounty\<close>.
\<close>

record 'tx claim_env =
  GetEpoch :: "err + 32 word"
  GetBountyLock :: "32 word \<Rightarrow> err + BountyLock"
  RedeemBounty :: "32 word \<Rightarrow> err + 'tx"
  Hash :: "'tx \<Rightarrow> hash"
  EpochLength :: "64 word"

text \<open>What the function does besides returning: its log lines and the transaction it sends.\<close>

datatype event =
    LogError string
  | LogInfo string
  | LogDebug string
  | LogWait "32 word" "64 word"
  | SubmitRedeemBounty "32 word"

text \<open>
  \<open>waitFor := int32(bountyLock.RedeemAfter) - int32(epoch)\<close> is a 32-bit subtraction that
  wraps; \<open>waitFor > 0\<close> reads the result as a signed number. \<open>LogWait\<close> stands for either
  of the two "Cannot claim bounty now" lines, with \<open>waitFor\<close> and \<open>timeRemaining\<close>.
  The result is the returned pair (hash, error) and the events in order.
\<close>

definition ClaimBounty :: "'tx claim_env \<Rightarrow> 32 word \<Rightarrow> (hash \<times> err option) \<times> event list" where
  "ClaimBounty env bountyId =
     (case GetEpoch env of
        Inl e \<Rightarrow> ((0, Some e), [LogError (''Error in getting epoch: '' @ e)])
      | Inr epoch \<Rightarrow>
        (case GetBountyLock env bountyId of
           Inl e \<Rightarrow> ((NilHash, Some e), [LogError (''Error in getting bounty lock: '' @ e)])
         | Inr bountyLock \<Rightarrow>
           if Amount bountyLock = 0
           then ((NilHash, Some ''bounty amount is 0''), [LogError ''bounty amount is 0''])
           else
             (let waitFor = RedeemAfter bountyLock - epoch in
              if 0 < sint waitFor
              then ((NilHash, None),
                    [LogInfo ''Claiming bounty transaction...'',
                     LogDebug ''Waiting for lock period to get over....'',
                     LogWait waitFor (scast waitFor * EpochLength env)])
              else
                (case RedeemBounty env bountyId of
                   Inl e \<Rightarrow> ((NilHash, Some e),
                             [LogInfo ''Claiming bounty transaction...'', SubmitRedeemBounty bountyId])
                 | Inr tx \<Rightarrow> ((Hash env tx, None),
                              [LogInfo ''Claiming bounty transaction...'', SubmitRedeemBounty bountyId])))))"

text \<open>The transactions a run sent, read off its events.\<close>

fun submitted :: "event list \<Rightarrow> 32 word list" where
  "submitted [] = []"
| "submitted (SubmitRedeemBounty b # es) = b # submitted es"
| "submitted (_ # es) = submitted es"

text \<open>Concrete chains used for evaluation: a lock of the given amount and release epoch.\<close>

definition lock_of :: "32 word \<Rightarrow> int \<Rightarrow> BountyLock" where
  "lock_of ra amt = \<lparr>RedeemAfter = ra, BountyHunter = 0, Amount = amt\<rparr>"

definition chain_at :: "32 word \<Rightarrow> 32 word \<Rightarrow> int \<Rightarrow> (err + 32 word) \<Rightarrow> (32 word) claim_env" where
  "chain_at epoch ra amt reply =
     \<lparr>GetEpoch = Inr epoch, GetBountyLock = (\<lambda>_. Inr (lock_of ra amt)),
      RedeemBounty = (\<lambda>_. reply), Hash = (\<lambda>tx. ucast tx + 1), EpochLength = 300\<rparr>"


section \<open>Data source fetcher: \<open>GetDataFromAPI\<close> and \<open>GetDataFromJSON\<close> (utils/api.go)\<close>

text \<open>
  The network is a parameter: \<open>Get timeout url n\<close> is what the \<open>n\<close>-th call of
  \<open>client.Get(url)\<close> brings back, for a client built with that timeout (in seconds). A
  reply is either a transport error or a response with its status code and what
  \<open>ReadAll\<close> returns for its body (the bytes read and an optional error).
\<close>

datatype http_reply =
    TransportError err
  | Response nat "8 word list" "err option"

datatype api_event =
    HttpGet nat string
  | LogStatus string nat
  | RetryDelay nat

text \<open>
  The closure handed to \<open>retry.Do\<close>. It assigns the captured variable \<open>body\<close> only when
  the status code is 200, and then also when \<open>ReadAll\<close> fails.
\<close>

definition fetch_attempt ::
  "(nat \<Rightarrow> string \<Rightarrow> nat \<Rightarrow> http_reply) \<Rightarrow> string \<Rightarrow> nat \<Rightarrow> 8 word list
     \<Rightarrow> err option \<times> 8 word list \<times> api_event list" where
  "fetch_attempt Get url n body =
     (case Get 10 url n of
        TransportError e \<Rightarrow> (Some e, body, [HttpGet 10 url])
      | Response statusCode bytes readErr \<Rightarrow>
          if statusCode \<noteq> 200
          then (Some ''unable to reach API'', body, [HttpGet 10 url, LogStatus url statusCode])
          else (case readErr of
                  Some e \<Rightarrow> (Some e, bytes, [HttpGet 10 url])
                | None \<Rightarrow> (None, bytes, [HttpGet 10 url])))"

text \<open>
  \<open>retry.Do\<close> of the library avast/retry-go, as its documentation describes it:
  the function is called until it returns nil, at most \<open>attempts\<close> times, with a delay
  (based on the configured one) between two calls and none after the last; when every call
  failed the errors of all calls are returned. The first argument counts the calls left.
\<close>

fun retry_Do ::
  "nat \<Rightarrow> nat \<Rightarrow> nat \<Rightarrow> (nat \<Rightarrow> 's \<Rightarrow> err option \<times> 's \<times> api_event list) \<Rightarrow> 's
     \<Rightarrow> err list option \<times> 's \<times> api_event list" where
  "retry_Do 0 delay n f s = (Some [], s, [])"
| "retry_Do (Suc k) delay n f s =
     (case f n s of
        (None, s', ev) \<Rightarrow> (None, s', ev)
      | (Some e, s', ev) \<Rightarrow>
          if k = 0 then (Some [e], s', ev)
          else (case retry_Do k delay (Suc n) f s' of
                  (r, s'', ev') \<Rightarrow> (map_option ((#) e) r, s'', ev @ RetryDelay delay # ev')))"

text \<open>
  \<open>GetDataFromAPI\<close>: timeout 10 s, \<open>retry.Attempts(2)\<close>, \<open>retry.Delay(2 s)\<close>. The result
  is \<open>Inl\<close> of the errors (Go returns \<open>nil, err\<close>) or \<open>Inr\<close> of the body.
\<close>

definition GetDataFromAPI ::
  "(nat \<Rightarrow> string \<Rightarrow> nat \<Rightarrow> http_reply) \<Rightarrow> string \<Rightarrow> (err list + 8 word list) \<times> api_event list" where
  "GetDataFromAPI Get url =
     (case retry_Do 2 2 0 (fetch_attempt Get url) [] of
        (Some errs, body, ev) \<Rightarrow> (Inl errs, ev)
      | (None, body, ev) \<Rightarrow> (Inr body, ev))"

fun requests :: "api_event list \<Rightarrow> (nat \<times> string) list" where
  "requests [] = []"
| "requests (HttpGet t u # es) = (t, u) # requests es"
| "requests (_ # es) = requests es"

fun delays :: "api_event list \<Rightarrow> nat list" where
  "delays [] = []"
| "delays (RetryDelay d # es) = d # delays es"
| "delays (_ # es) = delays es"

text \<open>An attempt succeeds when the status code is 200 and the body was read.\<close>

fun succeeded :: "http_reply \<Rightarrow> bool" where
  "succeeded (Response statusCode bytes None) = (statusCode = 200)"
| "succeeded _ = False"

fun body_of :: "http_reply \<Rightarrow> 8 word list" where
  "body_of (Response statusCode bytes readErr) = bytes"
| "body_of (TransportError e) = []"

text \<open>Sample networks: one that always answers with a status and a body, one that fails once.\<close>

definition always_status :: "nat \<Rightarrow> 8 word list \<Rightarrow> nat \<Rightarrow> string \<Rightarrow> nat \<Rightarrow> http_reply" where
  "always_status code bytes t u n = Response code bytes None"

definition fails_once :: "8 word list \<Rightarrow> nat \<Rightarrow> string \<Rightarrow> nat \<Rightarrow> http_reply" where
  "fails_once bytes t u n = (if n = 0 then TransportError ''timeout'' else Response 200 bytes None)"

text \<open>
  \<open>GetDataFromJSON\<close>. A Go string is a byte sequence and \<open>selector[0]\<close> panics when it is
  empty. \<open>jsonpath.Get\<close> is a parameter.
\<close>

datatype 'a outcome = Panic string | Returned 'a

definition index_string :: "string \<Rightarrow> nat \<Rightarrow> char outcome" where
  "index_string s i =
     (if i < length s then Returned (s ! i) else Panic ''index out of range'')"

definition GetDataFromJSON :: "(string \<Rightarrow> 'j \<Rightarrow> 'r) \<Rightarrow> 'j \<Rightarrow> string \<Rightarrow> 'r outcome" where
  "GetDataFromJSON jsonpath_Get jsonObject selector =
     (case index_string selector 0 of
        Panic msg \<Rightarrow> Panic msg
      | Returned c \<Rightarrow>
          if c = CHR ''[''
          then Returned (jsonpath_Get (''$'' @ selector) jsonObject)
          else Returned (jsonpath_Get (''$.'' @ selector) jsonObject))"

definition echo_path :: "string \<Rightarrow> unit \<Rightarrow> string" where
  "echo_path path obj = path"

section \<open>Password prompt: \<open>strongPassword\<close>\<close>

text \<open>
  A Go string is a sequence of bytes; \<open>len(input)\<close> counts bytes, and
  \<open>for _, char := range input\<close> walks the string rune by rune, decoding UTF-8: an invalid
  or incomplete encoding gives the rune U+FFFD and moves on by one byte. \<open>decodeRune\<close>
  returns the rune at the head of a byte sequence and the number of bytes it takes.
\<close>

type_synonym rune = nat

definition RuneError :: rune where
  "RuneError = 0xFFFD"

definition cont :: "nat \<Rightarrow> bool" where
  "cont b = (0x80 \<le> b \<and> b \<le> 0xBF)"

definition second_ok :: "nat \<Rightarrow> nat \<Rightarrow> bool" where
  "second_ok b0 b1 =
     ((if b0 = 0xE0 then 0xA0 else if b0 = 0xF0 then 0x90 else 0x80) \<le> b1 \<and>
      b1 \<le> (if b0 = 0xED then 0x9F else if b0 = 0xF4 then 0x8F else 0xBF))"

fun decodeRune :: "nat list \<Rightarrow> rune \<times> nat" where
  "decodeRune [] = (RuneError, 0)"
| "decodeRune (b0 # bs) =
     (if b0 < 0x80 then (b0, 1)
      else if 0xC2 \<le> b0 \<and> b0 \<le> 0xDF then
        (case bs of
           b1 # _ \<Rightarrow> if cont b1 then ((b0 - 0xC0) * 64 + (b1 - 0x80), 2) else (RuneError, 1)
         | _ \<Rightarrow> (RuneError, 1))
      else if 0xE0 \<le> b0 \<and> b0 \<le> 0xEF then
        (case bs of
           b1 # b2 # _ \<Rightarrow>
             if second_ok b0 b1 \<and> cont b2
             then ((b0 - 0xE0) * 4096 + (b1 - 0x80) * 64 + (b2 - 0x80), 3)
             else (RuneError, 1)
         | _ \<Rightarrow> (RuneError, 1))
      else if 0xF0 \<le> b0 \<and> b0 \<le> 0xF4 then
        (case bs of
           b1 # b2 # b3 # _ \<Rightarrow>
             if second_ok b0 b1 \<and> cont b2 \<and> cont b3
             then ((b0 - 0xF0) * 262144 + (b1 - 0x80) * 4096 + (b2 - 0x80) * 64 + (b3 - 0x80), 4)
             else (RuneError, 1)
         | _ \<Rightarrow> (RuneError, 1))
      else (RuneError, 1))"

text \<open>The runes a \<open>range\<close> loop sees: the first byte is consumed, then the rest of the rune.\<close>

fun runes :: "string \<Rightarrow> rune list" where
  "runes [] = []"
| "runes (c # cs) =
     (case decodeRune (map of_char (c # cs)) of
        (r, w) \<Rightarrow> r # runes (drop (w - 1) cs))"

text \<open>
  The predicates of Go's package \<open>unicode\<close> are parameters. The \<open>switch\<close> takes the first
  case that holds, in the order upper, lower, number, punctuation or symbol; the counters
  are \<open>(l, u, p, d)\<close>.
\<close>

record unicode =
  IsUpper :: "rune \<Rightarrow> bool"
  IsLower :: "rune \<Rightarrow> bool"
  IsNumber :: "rune \<Rightarrow> bool"
  IsPunct :: "rune \<Rightarrow> bool"
  IsSymbol :: "rune \<Rightarrow> bool"

definition count_rune :: "unicode \<Rightarrow> rune \<Rightarrow> nat \<times> nat \<times> nat \<times> nat \<Rightarrow> nat \<times> nat \<times> nat \<times> nat" where
  "count_rune U char = (\<lambda>(l, u, p, d).
     if IsUpper U char then (l, u + 1, p, d)
     else if IsLower U char then (l + 1, u, p, d)
     else if IsNumber U char then (l, u, p, d + 1)
     else if IsPunct U char \<or> IsSymbol U char then (l, u, p + 1, d)
     else (l, u, p, d))"

definition strongPassword :: "unicode \<Rightarrow> string \<Rightarrow> bool" where
  "strongPassword U input =
     (case (if length input \<ge> 8 then fold (count_rune U) (runes input) (0, 0, 0, 0)
            else (0, 0, 0, 0)) of
        (l, u, p, d) \<Rightarrow> (l \<ge> 1 \<and> u \<ge> 1 \<and> p \<ge> 1 \<and> d \<ge> 1) \<and> (l + u + p + d = length input))"

text \<open>
  The documented reading of the check, character by character: long enough, one character
  of each class, and every character in a class.
\<close>

definition classified :: "unicode \<Rightarrow> rune \<Rightarrow> bool" where
  "classified U c = (IsUpper U c \<or> IsLower U c \<or> IsNumber U c \<or> IsPunct U c \<or> IsSymbol U c)"

definition strongPassword_by_characters :: "unicode \<Rightarrow> string \<Rightarrow> bool" where
  "strongPassword_by_characters U input =
     (let cs = runes input in
      length cs \<ge> 8 \<and> list_ex (IsLower U) cs \<and> list_ex (IsUpper U) cs \<and>
      list_ex (IsNumber U) cs \<and> list_ex (\<lambda>c. IsPunct U c \<or> IsSymbol U c) cs \<and>
      list_all (classified U) cs)"

text \<open>
  The classes of the code points up to U+00FF as Go's \<open>unicode\<close> tables give them; this
  sample table classifies nothing above U+00FF.
\<close>

definition latin1_tables :: unicode where
  "latin1_tables =
     \<lparr>IsUpper = (\<lambda>r. (0x41 \<le> r \<and> r \<le> 0x5A) \<or> (0xC0 \<le> r \<and> r \<le> 0xDE \<and> r \<noteq> 0xD7)),
      IsLower = (\<lambda>r. (0x61 \<le> r \<and> r \<le> 0x7A) \<or> r = 0xB5 \<or> (0xDF \<le> r \<and> r \<le> 0xFF \<and> r \<noteq> 0xF7)),
      IsNumber = (\<lambda>r. (0x30 \<le> r \<and> r \<le> 0x39) \<or> r \<in> set [0xB2, 0xB3, 0xB9, 0xBC, 0xBD, 0xBE]),
      IsPunct = (\<lambda>r. r \<in> set [0x21, 0x22, 0x23, 0x25, 0x26, 0x27, 0x28, 0x29, 0x2A, 0x2C, 0x2D,
                               0x2E, 0x2F, 0x3A, 0x3B, 0x3F, 0x40, 0x5B, 0x5C, 0x5D, 0x5F, 0x7B,
                               0x7D, 0xA1, 0xA7, 0xAB, 0xB6, 0xB7, 0xBB, 0xBF]),
      IsSymbol = (\<lambda>r. r \<in> set [0x24, 0x2B, 0x3C, 0x3D, 0x3E, 0x5E, 0x60, 0x7C, 0x7E, 0xA2, 0xA3,
                                0xA4, 0xA5, 0xA6, 0xA8, 0xA9, 0xAC, 0xAE, 0xAF, 0xB0, 0xB1, 0xB4,
                                0xB8, 0xD7, 0xF7])\<rparr>"

text \<open>\<open>Passw0rd!\<close> followed by U+00E9 (a lowercase letter, two bytes in UTF-8).\<close>

definition accented_password :: string where
  "accented_password = ''Passw0rd!'' @ [char_of (0xC3 :: nat), char_of (0xA9 :: nat)]"


section \<open>Dispute engine: \<open>CheckDisputeForIds\<close>, \<open>GiveSorted\<close>, \<open>HandleDispute\<close>\<close>

text \<open>
  Of the dispute engine the repository's sources hold the tests only, so the functions of
  this section are written from the specification. Identifiers, indices and epochs are
  natural numbers, values and stakes are integers.
\<close>

record StructsBlock =
  ProposerId :: nat
  Ids :: "nat list"
  Medians :: "int list"
  Iteration :: nat
  BiggestStake :: int
  Valid :: bool

record LocalMediansData =
  localMedians :: "int list"
  revealedCollectionIds :: "nat list"
  SortedRevealedValues :: "nat \<Rightarrow> int list option"
  VoteWeights :: "int \<Rightarrow> int option"
  InfluenceSum :: "nat \<Rightarrow> int option"

datatype txn =
    DisputeBiggestStakeProposed nat nat
  | DisputeOnOrderOfIds nat nat nat nat
  | DisputeCollectionIdShouldBePresent nat nat nat
  | DisputeCollectionIdShouldBeAbsent nat nat nat nat
  | GiveSortedTx nat nat "int list"
  | FinalizeDispute nat nat nat
  | ResetDispute nat

record call =
  call_txn :: txn
  call_gas :: nat

text \<open>
  What a dispute pass does, in order: a block is visited, a transaction is sent (with the
  chain's answer: \<open>None\<close> when it is accepted, the revert reason otherwise), a failure is
  logged, a bounty is recorded for the block at an index.
\<close>

datatype step =
    Visit nat
  | Sent call "err option"
  | Logged err
  | RecordBounty nat

text \<open>
  The chain and the other collaborators. The answer to a transaction may depend on
  everything that happened before it.
\<close>

record chain =
  Send :: "step list \<Rightarrow> call \<Rightarrow> err option"
  EstimateGas :: "txn \<Rightarrow> nat"
  BlockGasLimit :: "err + nat"
  GasMultiplier :: nat
  GetSortedProposedBlockIds :: "nat \<Rightarrow> err + nat list"
  GetBiggestStake :: "nat \<Rightarrow> err + int"
  GetLocalMediansData :: "nat \<Rightarrow> err + LocalMediansData"
  Shuffle :: "nat list \<Rightarrow> nat list"
  GetProposedBlock :: "nat \<Rightarrow> nat \<Rightarrow> err + StructsBlock"
  AlreadyDisputed :: "nat \<Rightarrow> nat \<Rightarrow> bool"

text \<open>Sending a transaction with a gas limit: the chain's answer and the step taken.\<close>

definition submit :: "chain \<Rightarrow> step list \<Rightarrow> txn \<Rightarrow> nat \<Rightarrow> err option \<times> step list" where
  "submit c hist t g =
     (let r = Send c hist \<lparr>call_txn = t, call_gas = g\<rparr> in
      (r, [Sent \<lparr>call_txn = t, call_gas = g\<rparr> r]))"

subsection \<open>Collection ids\<close>

text \<open>
  Modelled from the spec: \<open>CheckDisputeForIds\<close> and its helpers are missing from the
  sources. "If block's ids is not ascending: disputeOnOrderOfIds(epoch, blockIndex, i, j)
  where i, j is the first descending pair." The ids stand for an ordered set, so ascending
  is strict, as for \<open>revealedCollectionIds\<close>: the first pair of neighbours that does not
  ascend is reported.
\<close>

fun first_descending :: "nat list \<Rightarrow> nat \<Rightarrow> (nat \<times> nat) option" where
  "first_descending (x # y # ys) i =
     (if x < y then first_descending (y # ys) (i + 1) else Some (i, i + 1))"
| "first_descending _ i = None"

text \<open>
  Modelled from the spec: "a required id is missing" is the first revealed id that the
  block does not hold; "an extra id is present" is the first id of the block that was not
  revealed, with its position in the block.
\<close>

definition first_missing :: "nat list \<Rightarrow> nat list \<Rightarrow> nat option" where
  "first_missing revealed idsInBlock = find (\<lambda>i. i \<notin> set idsInBlock) revealed"

fun first_extra :: "nat list \<Rightarrow> nat list \<Rightarrow> nat \<Rightarrow> (nat \<times> nat) option" where
  "first_extra [] revealed pos = None"
| "first_extra (x # xs) revealed pos =
     (if x \<in> set revealed then first_extra xs revealed (pos + 1) else Some (x, pos))"

text \<open>
  Modelled from the spec: the gas-limit bump (\<open>IncreaseGasLimitValue\<close> is missing). "The
  engine multiplies the RPC-estimated gas by a configured factor (default 2 times) and caps
  at the chain's block gas limit." Reading the block gas limit can fail.
\<close>

definition IncreaseGasLimitValue :: "chain \<Rightarrow> nat \<Rightarrow> err + nat" where
  "IncreaseGasLimitValue c gasLimit =
     (case BlockGasLimit c of
        Inl e \<Rightarrow> Inl e
      | Inr cap \<Rightarrow> Inr (min (gasLimit * GasMultiplier c) cap))"

definition submit_with_bump :: "chain \<Rightarrow> step list \<Rightarrow> txn \<Rightarrow> (err + call option) \<times> step list" where
  "submit_with_bump c hist t =
     (case IncreaseGasLimitValue c (EstimateGas c t) of
        Inl e \<Rightarrow> (Inl e, [])
      | Inr g \<Rightarrow>
          (case submit c hist t g of
             (None, steps) \<Rightarrow> (Inr (Some \<lparr>call_txn = t, call_gas = g\<rparr>), steps)
           | (Some e, steps) \<Rightarrow> (Inl e, steps)))"

text \<open>The two transactions that "consistently under-estimate gas".\<close>

fun needs_gas_bump :: "txn \<Rightarrow> bool" where
  "needs_gas_bump (DisputeCollectionIdShouldBePresent e b m) = True"
| "needs_gas_bump (DisputeCollectionIdShouldBeAbsent e b x pos) = True"
| "needs_gas_bump _ = False"

text \<open>
  Modelled from the spec: \<open>CheckDisputeForIds\<close>, the three sub-classes in order. The
  result is an error, or the transaction that was accepted, or \<open>None\<close> when there is
  nothing to dispute; with it the steps taken.
\<close>

definition CheckDisputeForIds ::
  "chain \<Rightarrow> step list \<Rightarrow> nat \<Rightarrow> nat \<Rightarrow> nat list \<Rightarrow> nat list \<Rightarrow> (err + call option) \<times> step list" where
  "CheckDisputeForIds c hist epoch blockIndex idsInProposedBlock revealed =
     (case first_descending idsInProposedBlock 0 of
        Some (i, j) \<Rightarrow>
          (case submit c hist (DisputeOnOrderOfIds epoch blockIndex i j)
                  (EstimateGas c (DisputeOnOrderOfIds epoch blockIndex i j)) of
             (None, steps) \<Rightarrow>
               (Inr (Some \<lparr>call_txn = DisputeOnOrderOfIds epoch blockIndex i j,
                          call_gas = EstimateGas c (DisputeOnOrderOfIds epoch blockIndex i j)\<rparr>), steps)
           | (Some e, steps) \<Rightarrow> (Inl e, steps))
      | None \<Rightarrow>
          (case first_missing revealed idsInProposedBlock of
             Some missingId \<Rightarrow>
               submit_with_bump c hist (DisputeCollectionIdShouldBePresent epoch blockIndex missingId)
           | None \<Rightarrow>
               (case first_extra idsInProposedBlock revealed 0 of
                  Some (extraId, pos) \<Rightarrow>
                    submit_with_bump c hist
                      (DisputeCollectionIdShouldBeAbsent epoch blockIndex extraId pos)
                | None \<Rightarrow> (Inr None, []))))"

text \<open>The transactions among the steps, in order.\<close>

fun txns :: "step list \<Rightarrow> txn list" where
  "txns [] = []"
| "txns (Sent cl r # ss) = call_txn cl # txns ss"
| "txns (_ # ss) = txns ss"

subsection \<open>The giveSorted stream\<close>

text \<open>
  Modelled from the spec: \<open>GiveSorted\<close> is missing. The engine "slices
  sortedRevealedValues[cid] into batches (initial batch size = 20, halve on gas limit
  reached, down to 1, then give up)" and "replays from the last successful index on retry".
  \<open>idx\<close> is the number of values the chain has accepted. The result tells whether the
  whole list was accepted. The spec names no retry for any other error: the stream ends
  there. A batch size of 0 cannot arise from 20 by halving above 1; the loop stops on it.
\<close>

function giveSorted_loop ::
  "chain \<Rightarrow> nat \<Rightarrow> nat \<Rightarrow> int list \<Rightarrow> nat \<Rightarrow> nat \<Rightarrow> step list \<Rightarrow> bool \<times> step list" where
  "giveSorted_loop c epoch cid vals idx batchSize hist =
     (if length vals \<le> idx then (True, [])
      else if batchSize = 0 then (False, [])
      else
        (case submit c hist (GiveSortedTx epoch cid (take batchSize (drop idx vals)))
                (EstimateGas c (GiveSortedTx epoch cid (take batchSize (drop idx vals)))) of
           (None, steps) \<Rightarrow>
             (case giveSorted_loop c epoch cid vals
                     (idx + length (take batchSize (drop idx vals))) batchSize (hist @ steps) of
                (ok, later) \<Rightarrow> (ok, steps @ later))
         | (Some e, steps) \<Rightarrow>
             if e = ''gas limit reached'' \<and> 1 < batchSize
             then (case giveSorted_loop c epoch cid vals idx (batchSize div 2) (hist @ steps) of
                     (ok, later) \<Rightarrow> (ok, steps @ later))
             else (False, steps)))"
  by pat_completeness auto
termination
  by (relation "measures [\<lambda>(c, epoch, cid, vals, idx, batchSize, hist). length vals - idx,
                          \<lambda>(c, epoch, cid, vals, idx, batchSize, hist). batchSize]") auto

declare giveSorted_loop.simps [simp del]

definition GiveSorted :: "chain \<Rightarrow> step list \<Rightarrow> nat \<Rightarrow> nat \<Rightarrow> int list \<Rightarrow> bool \<times> step list" where
  "GiveSorted c hist epoch cid sortedValues = giveSorted_loop c epoch cid sortedValues 0 20 hist"

text \<open>
  The stream as the protocol words it, read off the steps taken and the outcome: each batch
  starts at the last accepted index and has the current batch size; after "gas limit
  reached" the next batch has half the size and the same start, unless the size was 1:
  then the stream ends without success, as it does after any other error; the stream ends
  with success only when every value has been accepted.
\<close>

fun follows_stream :: "nat \<Rightarrow> nat \<Rightarrow> int list \<Rightarrow> nat \<Rightarrow> nat \<Rightarrow> bool \<Rightarrow> step list \<Rightarrow> bool" where
  "follows_stream epoch cid vals idx b ok [] = (ok \<and> length vals \<le> idx)"
| "follows_stream epoch cid vals idx b ok (Sent cl r # ss) =
     (idx < length vals \<and> call_txn cl = GiveSortedTx epoch cid (take b (drop idx vals)) \<and>
      (case r of
         None \<Rightarrow> follows_stream epoch cid vals (idx + length (take b (drop idx vals))) b ok ss
       | Some e \<Rightarrow>
           if e = ''gas limit reached'' \<and> 1 < b
           then follows_stream epoch cid vals idx (b div 2) ok ss
           else ss = [] \<and> \<not> ok))"
| "follows_stream epoch cid vals idx b ok (_ # ss) = False"

text \<open>The values of the accepted batches, in the order they were sent.\<close>

fun accepted_values :: "step list \<Rightarrow> int list" where
  "accepted_values [] = []"
| "accepted_values (Sent cl None # ss) =
     (case call_txn cl of GiveSortedTx e cid batch \<Rightarrow> batch @ accepted_values ss
                        | _ \<Rightarrow> accepted_values ss)"
| "accepted_values (_ # ss) = accepted_values ss"

fun batches :: "step list \<Rightarrow> int list list" where
  "batches [] = []"
| "batches (Sent cl r # ss) =
     (case call_txn cl of GiveSortedTx e cid batch \<Rightarrow> batch # batches ss | _ \<Rightarrow> batches ss)"
| "batches (_ # ss) = batches ss"


subsection \<open>The dispute pass\<close>

text \<open>
  Modelled from the spec: the median dispute (\<open>Dispute\<close> is missing). "For each i, if
  block.medians[i] differs from canonical.medians[i], submit finalizeDispute after first
  calling giveSorted"; "on final success, calls finalizeDispute(epoch, blockIndex,
  collectionIndexInBlock)". The first differing position is disputed.
\<close>

fun first_mismatch :: "int list \<Rightarrow> int list \<Rightarrow> nat \<Rightarrow> nat option" where
  "first_mismatch (x # xs) (y # ys) i =
     (if x \<noteq> y then Some i else first_mismatch xs ys (i + 1))"
| "first_mismatch _ _ i = None"

definition Dispute ::
  "chain \<Rightarrow> step list \<Rightarrow> nat \<Rightarrow> nat \<Rightarrow> nat \<Rightarrow> nat \<Rightarrow> int list \<Rightarrow> err option \<times> step list" where
  "Dispute c hist epoch blockIndex cid i sortedValues =
     (case GiveSorted c hist epoch cid sortedValues of
        (False, steps) \<Rightarrow> (Some ''giveSorted gave up'', steps)
      | (True, steps) \<Rightarrow>
          (case submit c (hist @ steps) (FinalizeDispute epoch blockIndex i)
                  (EstimateGas c (FinalizeDispute epoch blockIndex i)) of
             (r, fin) \<Rightarrow> (r, steps @ fin)))"

fun index_of :: "nat list \<Rightarrow> nat \<Rightarrow> nat \<Rightarrow> nat option" where
  "index_of [] v i = None"
| "index_of (x # xs) v i = (if x = v then Some i else index_of xs v (i + 1))"

definition values_of :: "LocalMediansData \<Rightarrow> nat \<Rightarrow> int list" where
  "values_of canon cid = (case SortedRevealedValues canon cid of None \<Rightarrow> [] | Some vs \<Rightarrow> vs)"

text \<open>
  Modelled from the spec: one block of the pass (\<open>HandleDispute\<close> is missing). A block that
  cannot be read, that is already disputed or that is not valid is skipped. Then the
  classes are checked in order: biggest stake, collection ids, medians. "On the first
  violation, build and submit the matching dispute transaction"; a successful dispute
  records the bounty; a failed one is logged, and the pass goes on to the next block.
  The block index is the position of the block id in \<open>sortedProposedBlockIds\<close>. The
  spec lists the invalid block last, with "skip dispute": no dispute is sent for it, so it
  is set aside before the three checks.
\<close>

definition handle_block ::
  "chain \<Rightarrow> nat \<Rightarrow> int \<Rightarrow> LocalMediansData \<Rightarrow> nat list \<Rightarrow> step list \<Rightarrow> nat \<Rightarrow> step list" where
  "handle_block c epoch biggest canon sortedIds hist blockId =
     Visit blockId #
     (case GetProposedBlock c epoch blockId of
        Inl e \<Rightarrow> [Logged e]
      | Inr blk \<Rightarrow>
          (case index_of sortedIds blockId 0 of
             None \<Rightarrow> [Logged ''Block is not present in SortedProposedBlockIds'']
           | Some blockIndex \<Rightarrow>
               if AlreadyDisputed c epoch blockIndex then []
               else if \<not> Valid blk then []
               else if BiggestStake blk \<noteq> biggest then
                 (case submit c (hist @ [Visit blockId]) (DisputeBiggestStakeProposed epoch blockIndex)
                         (EstimateGas c (DisputeBiggestStakeProposed epoch blockIndex)) of
                    (None, steps) \<Rightarrow> steps @ [RecordBounty blockIndex]
                  | (Some e, steps) \<Rightarrow> steps @ [Logged e])
               else
                 (case CheckDisputeForIds c (hist @ [Visit blockId]) epoch blockIndex (Ids blk)
                         (revealedCollectionIds canon) of
                    (Inl e, steps) \<Rightarrow> steps @ [Logged e]
                  | (Inr (Some cl), steps) \<Rightarrow> steps @ [RecordBounty blockIndex]
                  | (Inr None, steps) \<Rightarrow>
                      (case first_mismatch (Medians blk) (localMedians canon) 0 of
                         None \<Rightarrow> steps
                       | Some i \<Rightarrow>
                           if i < length (Ids blk) then
                             (case Dispute c (hist @ Visit blockId # steps) epoch blockIndex
                                     (Ids blk ! i) i (values_of canon (Ids blk ! i)) of
                                (None, ds) \<Rightarrow> steps @ ds @ [RecordBounty blockIndex]
                              | (Some e, ds) \<Rightarrow> steps @ ds @ [Logged e])
                           else steps @ [Logged ''no collection at the disputed position'']))))"

fun handle_blocks ::
  "chain \<Rightarrow> nat \<Rightarrow> int \<Rightarrow> LocalMediansData \<Rightarrow> nat list \<Rightarrow> step list \<Rightarrow> nat list \<Rightarrow> step list" where
  "handle_blocks c epoch biggest canon sortedIds hist [] = []"
| "handle_blocks c epoch biggest canon sortedIds hist (b # bs) =
     handle_block c epoch biggest canon sortedIds hist b @
     handle_blocks c epoch biggest canon sortedIds
       (hist @ handle_block c epoch biggest canon sortedIds hist b) bs"

text \<open>
  Modelled from the spec: \<open>HandleDispute\<close>. "Any error while computing canonical
  aggregates: abort the epoch's dispute pass"; blocks are visited in shuffled order; when
  the list is empty, "Reset issues resetDispute(epoch)". The result is the error returned
  (\<open>None\<close> for nil) and the steps of the pass.
\<close>

definition HandleDispute :: "chain \<Rightarrow> nat \<Rightarrow> err option \<times> step list" where
  "HandleDispute c epoch =
     (case GetSortedProposedBlockIds c epoch of
        Inl e \<Rightarrow> (Some e, [])
      | Inr sortedIds \<Rightarrow>
          (case GetBiggestStake c epoch of
             Inl e \<Rightarrow> (Some e, [])
           | Inr biggest \<Rightarrow>
               (case GetLocalMediansData c epoch of
                  Inl e \<Rightarrow> (Some e, [])
                | Inr canon \<Rightarrow>
                    (case handle_blocks c epoch biggest canon sortedIds [] (Shuffle c sortedIds) of
                       steps \<Rightarrow>
                         (None, steps @ snd (submit c steps (ResetDispute epoch)
                                               (EstimateGas c (ResetDispute epoch))))))))"

text \<open>The dispute classes, and the class a block falls into by priority.\<close>

datatype dispute_class = BiggestStakeClass | CollectionIdClass | MedianClass

fun class_of :: "txn \<Rightarrow> dispute_class option" where
  "class_of (DisputeBiggestStakeProposed e b) = Some BiggestStakeClass"
| "class_of (DisputeOnOrderOfIds e b i j) = Some CollectionIdClass"
| "class_of (DisputeCollectionIdShouldBePresent e b m) = Some CollectionIdClass"
| "class_of (DisputeCollectionIdShouldBeAbsent e b x pos) = Some CollectionIdClass"
| "class_of (GiveSortedTx e cid batch) = Some MedianClass"
| "class_of (FinalizeDispute e b i) = Some MedianClass"
| "class_of (ResetDispute e) = None"



fun visited :: "step list \<Rightarrow> nat list" where
  "visited [] = []"
| "visited (Visit b # ss) = b # visited ss"
| "visited (_ # ss) = visited ss"

text \<open>
  The transactions that open or close a dispute on a block (the batches of the giveSorted
  stream and \<open>resetDispute\<close> are not among them), and the lists of steps in which each
  such transaction that failed is followed at once by the log line of its failure.
\<close>

fun opens_dispute :: "txn \<Rightarrow> bool" where
  "opens_dispute (GiveSortedTx e cid batch) = False"
| "opens_dispute (ResetDispute e) = False"
| "opens_dispute _ = True"

fun failures_logged :: "step list \<Rightarrow> bool" where
  "failures_logged [] = True"
| "failures_logged (Sent cl (Some e) # ss) =
     ((opens_dispute (call_txn cl) \<longrightarrow> (case ss of Logged e' # _ \<Rightarrow> e' = e | _ \<Rightarrow> False)) \<and>
      failures_logged ss)"
| "failures_logged (_ # ss) = failures_logged ss"

text \<open>Sample chains for evaluation.\<close>

definition block_of :: "nat list \<Rightarrow> int list \<Rightarrow> int \<Rightarrow> StructsBlock" where
  "block_of is ms stake =
     \<lparr>ProposerId = 1, Ids = is, Medians = ms, Iteration = 0, BiggestStake = stake, Valid = True\<rparr>"

definition canon_of :: "int list \<Rightarrow> nat list \<Rightarrow> (nat \<Rightarrow> int list option) \<Rightarrow> LocalMediansData" where
  "canon_of ms cids vs =
     \<lparr>localMedians = ms, revealedCollectionIds = cids, SortedRevealedValues = vs,
      VoteWeights = (\<lambda>_. None), InfluenceSum = (\<lambda>_. None)\<rparr>"

definition accept_all :: "step list \<Rightarrow> call \<Rightarrow> err option" where
  "accept_all hist cl = None"

definition revert_all :: "err \<Rightarrow> step list \<Rightarrow> call \<Rightarrow> err option" where
  "revert_all reason hist cl = Some reason"

definition revert_first :: "nat \<Rightarrow> err \<Rightarrow> step list \<Rightarrow> call \<Rightarrow> err option" where
  "revert_first n reason hist cl = (if length (txns hist) < n then Some reason else None)"

definition sample_values :: "nat \<Rightarrow> int list option" where
  "sample_values cid = (if cid = 1 then Some [100, 200, 300] else None)"

definition sample_chain ::
  "(step list \<Rightarrow> call \<Rightarrow> err option) \<Rightarrow> (err + nat) \<Rightarrow> (nat \<Rightarrow> err + StructsBlock) \<Rightarrow> chain" where
  "sample_chain send cap blocks =
     \<lparr>Send = send, EstimateGas = (\<lambda>t. 1000), BlockGasLimit = cap, GasMultiplier = 2,
      GetSortedProposedBlockIds = (\<lambda>e. Inr [10, 11]),
      GetBiggestStake = (\<lambda>e. Inr 5356),
      GetLocalMediansData = (\<lambda>e. Inr (canon_of [200] [1] sample_values)),
      Shuffle = rev,
      GetProposedBlock = (\<lambda>e. blocks),
      AlreadyDisputed = (\<lambda>e b. False)\<rparr>"

definition two_blocks :: "StructsBlock \<Rightarrow> StructsBlock \<Rightarrow> nat \<Rightarrow> err + StructsBlock" where
  "two_blocks b0 b1 blockId =
     (if blockId = 10 then Inr b0 else if blockId = 11 then Inr b1 else Inl ''no such block'')"

section \<open>Properties of the bounty claimer\<close>

lemma sint_diff_near:
  fixes a b :: "32 word"
  assumes "- 2147483648 \<le> uint a - uint b" "uint a - uint b < 2147483648"
  shows "sint (a - b) = uint a - uint b"
proof -
  have "sint (a - b) = signed_take_bit 31 (uint (a - b))"
    by (simp add: sint_uint)
  also have "uint (a - b) = take_bit 32 (uint a - uint b)"
    by (simp add: uint_word_ariths take_bit_eq_mod)
  also have "signed_take_bit 31 (take_bit 32 (uint a - uint b)) =
             signed_take_bit 31 (uint a - uint b)"
    by (simp add: signed_take_bit_take_bit)
  also have "\<dots> = uint a - uint b"
    using assms by (simp add: signed_take_bit_int_eq_self_iff)
  finally show ?thesis .
qed

lemma wait_iff_near:
  fixes a b :: "32 word"
  assumes "- 2147483648 \<le> uint a - uint b" "uint a - uint b < 2147483648"
  shows "0 < sint (a - b) \<longleftrightarrow> b < a"
  by (simp add: sint_diff_near [OF assms] word_less_def)

lemma ClaimBounty_nonzero:
  assumes "GetEpoch env = Inr epoch" "GetBountyLock env b = Inr lk" "Amount lk \<noteq> 0"
  shows "ClaimBounty env b =
     (if 0 < sint (RedeemAfter lk - epoch)
      then ((NilHash, None),
            [LogInfo ''Claiming bounty transaction...'',
             LogDebug ''Waiting for lock period to get over....'',
             LogWait (RedeemAfter lk - epoch) (scast (RedeemAfter lk - epoch) * EpochLength env)])
      else (case RedeemBounty env b of
              Inl e \<Rightarrow> ((NilHash, Some e),
                        [LogInfo ''Claiming bounty transaction...'', SubmitRedeemBounty b])
            | Inr t \<Rightarrow> ((Hash env t, None),
                        [LogInfo ''Claiming bounty transaction...'', SubmitRedeemBounty b])))"
  using assms by (simp add: ClaimBounty_def Let_def)

text \<open>
  C5, as the code has it. The claim as stated fails in three places: a lock with amount 0
  and a later release epoch returns the error "bounty amount is 0", not a nil error; the
  waiting time is a signed 32-bit difference, so a release epoch \<open>2^31\<close> ahead of the epoch
  is not waited for, and a release epoch more than \<open>2^31\<close> behind the epoch is waited for;
  and when \<open>RedeemBounty\<close> fails there is no hash to return.
\<close>

theorem ClaimBounty_lock_gate_counterexample:
  "(5 :: 32 word) < RedeemAfter (lock_of 7 0) \<and>
   fst (ClaimBounty (chain_at 5 7 0 (Inr 9)) 7) = (NilHash, Some ''bounty amount is 0'') \<and>
   (0 :: 32 word) < RedeemAfter (lock_of 0x80000000 1) \<and>
   submitted (snd (ClaimBounty (chain_at 0 0x80000000 1 (Inr 9)) 7)) = [7] \<and>
   RedeemAfter (lock_of 0 1) \<le> (0x80000001 :: 32 word) \<and>
   submitted (snd (ClaimBounty (chain_at 0x80000001 0 1 (Inr 9)) 7)) = [] \<and>
   RedeemAfter (lock_of 7 1) \<le> (7 :: 32 word) \<and>
   fst (ClaimBounty (chain_at 7 7 1 (Inl ''nonce too low'')) 7) = (NilHash, Some ''nonce too low'')"
  by (simp add: ClaimBounty_def chain_at_def lock_of_def NilHash_def)

text \<open>
  C5 (amended): when the epoch and the lock are read, the amount is not zero and
  \<open>redeemAfter\<close> lies within the signed 32-bit range of the epoch, that is
  \<open>-2^31 \<le> redeemAfter - epoch < 2^31\<close>: if \<open>redeemAfter\<close> is greater than the epoch,
  \<open>ClaimBounty\<close> sends no transaction, returns the nil hash with a nil error and logs how
  long to wait; if \<open>redeemAfter\<close> is at most the epoch, it sends \<open>redeemBounty\<close> for that
  bounty id and returns the hash of the transaction, or the nil hash and the error when
  sending failed.
\<close>

theorem ClaimBounty_lock_gate:
  assumes ep: "GetEpoch env = Inr epoch"
    and lk: "GetBountyLock env b = Inr lk"
    and amt: "Amount lk \<noteq> 0"
    and near: "- 2147483648 \<le> uint (RedeemAfter lk) - uint epoch"
              "uint (RedeemAfter lk) - uint epoch < 2147483648"
  shows "(epoch < RedeemAfter lk \<longrightarrow>
            fst (ClaimBounty env b) = (NilHash, None) \<and>
            submitted (snd (ClaimBounty env b)) = [] \<and>
            LogWait (RedeemAfter lk - epoch) (scast (RedeemAfter lk - epoch) * EpochLength env)
              \<in> set (snd (ClaimBounty env b))) \<and>
         (RedeemAfter lk \<le> epoch \<longrightarrow>
            submitted (snd (ClaimBounty env b)) = [b] \<and>
            fst (ClaimBounty env b) =
              (case RedeemBounty env b of
                 Inl e \<Rightarrow> (NilHash, Some e)
               | Inr t \<Rightarrow> (Hash env t, None)))"
proof -
  have w: "0 < sint (RedeemAfter lk - epoch) \<longleftrightarrow> epoch < RedeemAfter lk"
    by (rule wait_iff_near [OF near])
  show ?thesis
    by (simp add: ClaimBounty_nonzero [OF ep lk amt] w not_less [symmetric] split: sum.split)
qed

theorem ClaimBounty_lock_gate_witness:
  "fst (ClaimBounty (chain_at 5 7 1 (Inr 9)) 7) = (NilHash, None) \<and>
   submitted (snd (ClaimBounty (chain_at 5 7 1 (Inr 9)) 7)) = [] \<and>
   LogWait 2 600 \<in> set (snd (ClaimBounty (chain_at 5 7 1 (Inr 9)) 7)) \<and>
   submitted (snd (ClaimBounty (chain_at 7 7 1 (Inr 9)) 7)) = [7] \<and>
   fst (ClaimBounty (chain_at 7 7 1 (Inr 9)) 7) = (10, None) \<and>
   fst (ClaimBounty (chain_at 0x80000005 0x80000007 1 (Inr 9)) 7) = (NilHash, None) \<and>
   submitted (snd (ClaimBounty (chain_at 0x80000005 0x80000007 1 (Inr 9)) 7)) = [] \<and>
   submitted (snd (ClaimBounty (chain_at 0x80000009 0x80000007 1 (Inr 9)) 7)) = [7]"
proof -
  have a: "GetEpoch (chain_at 5 7 1 (Inr 9)) = Inr 5"
    and b: "GetBountyLock (chain_at 5 7 1 (Inr 9)) 7 = Inr (lock_of 7 1)"
    and c: "GetEpoch (chain_at 7 7 1 (Inr 9)) = Inr 7"
    and d: "GetBountyLock (chain_at 7 7 1 (Inr 9)) 7 = Inr (lock_of 7 1)"
    and e: "Amount (lock_of 7 1) \<noteq> 0"
    and f: "- 2147483648 \<le> uint (RedeemAfter (lock_of 7 1)) - uint (5 :: 32 word)"
           "uint (RedeemAfter (lock_of 7 1)) - uint (5 :: 32 word) < 2147483648"
    and g: "- 2147483648 \<le> uint (RedeemAfter (lock_of 7 1)) - uint (7 :: 32 word)"
           "uint (RedeemAfter (lock_of 7 1)) - uint (7 :: 32 word) < 2147483648"
    by (simp_all add: chain_at_def lock_of_def)
  have a': "GetEpoch (chain_at 0x80000005 0x80000007 1 (Inr 9)) = Inr 0x80000005"
    and b': "GetBountyLock (chain_at 0x80000005 0x80000007 1 (Inr 9)) 7 = Inr (lock_of 0x80000007 1)"
    and c': "GetEpoch (chain_at 0x80000009 0x80000007 1 (Inr 9)) = Inr 0x80000009"
    and d': "GetBountyLock (chain_at 0x80000009 0x80000007 1 (Inr 9)) 7 = Inr (lock_of 0x80000007 1)"
    and e': "Amount (lock_of 0x80000007 1) \<noteq> 0"
    and f': "- 2147483648 \<le> uint (RedeemAfter (lock_of 0x80000007 1)) - uint (0x80000005 :: 32 word)"
            "uint (RedeemAfter (lock_of 0x80000007 1)) - uint (0x80000005 :: 32 word) < 2147483648"
    and g': "- 2147483648 \<le> uint (RedeemAfter (lock_of 0x80000007 1)) - uint (0x80000009 :: 32 word)"
            "uint (RedeemAfter (lock_of 0x80000007 1)) - uint (0x80000009 :: 32 word) < 2147483648"
    by (simp_all add: chain_at_def lock_of_def)
  show ?thesis
    using ClaimBounty_lock_gate [OF a b e f] ClaimBounty_lock_gate [OF c d e g]
      ClaimBounty_lock_gate [OF a' b' e' f'] ClaimBounty_lock_gate [OF c' d' e' g']
    by (simp add: chain_at_def lock_of_def)
qed

text \<open>
  C6, as the code has it: a lock with amount 0 is not dropped silently. The error
  "bounty amount is 0" is logged and returned.
\<close>

theorem ClaimBounty_zero_amount_counterexample:
  "Amount (lock_of 3 0) = 0 \<and>
   snd (fst (ClaimBounty (chain_at 9 3 0 (Inr 4)) 3)) = Some ''bounty amount is 0'' \<and>
   LogError ''bounty amount is 0'' \<in> set (snd (ClaimBounty (chain_at 9 3 0 (Inr 4)) 3))"
  by (simp add: ClaimBounty_def chain_at_def lock_of_def)

text \<open>
  C6 (amended): for every bounty whose lock amount is zero, \<open>ClaimBounty\<close> sends no
  transaction; it logs the error "bounty amount is 0" and returns it with the nil hash.
\<close>

theorem ClaimBounty_zero_amount:
  assumes "GetEpoch env = Inr epoch" "GetBountyLock env b = Inr lk" "Amount lk = 0"
  shows "ClaimBounty env b =
           ((NilHash, Some ''bounty amount is 0''), [LogError ''bounty amount is 0'']) \<and>
         submitted (snd (ClaimBounty env b)) = []"
  using assms by (simp add: ClaimBounty_def)

theorem ClaimBounty_zero_amount_witness:
  "ClaimBounty (chain_at 2 8 0 (Inr 4)) 8 =
     ((NilHash, Some ''bounty amount is 0''), [LogError ''bounty amount is 0'']) \<and>
   submitted (snd (ClaimBounty (chain_at 2 8 0 (Inr 4)) 8)) = []"
proof -
  have a: "GetEpoch (chain_at 2 8 0 (Inr 4)) = Inr 2"
    and b: "GetBountyLock (chain_at 2 8 0 (Inr 4)) 8 = Inr (lock_of 8 0)"
    and c: "Amount (lock_of 8 0) = 0"
    by (simp_all add: chain_at_def lock_of_def)
  show ?thesis by (rule ClaimBounty_zero_amount [OF a b c])
qed

section \<open>Properties of the data source fetcher\<close>

text \<open>
  C8, as the code has it: the status code must be exactly 200. A response with status 201
  and a body is an error on both attempts.
\<close>

theorem GetDataFromAPI_status_201_counterexample:
  "GetDataFromAPI (always_status 201 [1, 2, 3]) ''https://api'' =
     (Inl [''unable to reach API'', ''unable to reach API''],
      [HttpGet 10 ''https://api'', LogStatus ''https://api'' 201, RetryDelay 2,
       HttpGet 10 ''https://api'', LogStatus ''https://api'' 201])"
  by (simp add: GetDataFromAPI_def fetch_attempt_def always_status_def numeral_2_eq_2)

text \<open>
  C8 (amended): \<open>GetDataFromAPI\<close> makes a GET with a 10-second timeout, at most twice, with
  the retry delay set to 2 seconds between the two. It returns the body of the first
  attempt whose status code is 200 and whose body could be read, and an error when both
  attempts fail (transport error, a status code other than 200, or a failed read).
\<close>

theorem GetDataFromAPI_two_attempts:
  "(succeeded (Get 10 url 0) \<longrightarrow>
      GetDataFromAPI Get url = (Inr (body_of (Get 10 url 0)), [HttpGet 10 url])) \<and>
   (\<not> succeeded (Get 10 url 0) \<and> succeeded (Get 10 url 1) \<longrightarrow>
      fst (GetDataFromAPI Get url) = Inr (body_of (Get 10 url 1))) \<and>
   (\<not> succeeded (Get 10 url 0) \<and> \<not> succeeded (Get 10 url 1) \<longrightarrow>
      isl (fst (GetDataFromAPI Get url))) \<and>
   (\<not> succeeded (Get 10 url 0) \<longrightarrow>
      requests (snd (GetDataFromAPI Get url)) = [(10, url), (10, url)] \<and>
      delays (snd (GetDataFromAPI Get url)) = [2])"
proof -
  have two: "(2::nat) = Suc (Suc 0)" by simp
  show ?thesis
    by (cases "Get 10 url 0" rule: succeeded.cases; cases "Get 10 url 1" rule: succeeded.cases)
       (simp_all add: GetDataFromAPI_def fetch_attempt_def two)
qed

theorem GetDataFromAPI_two_attempts_witness:
  "GetDataFromAPI (always_status 200 [1, 2, 3]) ''https://api'' =
     (Inr [1, 2, 3], [HttpGet 10 ''https://api'']) \<and>
   fst (GetDataFromAPI (fails_once [4, 5]) ''https://api'') = Inr [4, 5] \<and>
   requests (snd (GetDataFromAPI (fails_once [4, 5]) ''https://api'')) =
     [(10, ''https://api''), (10, ''https://api'')] \<and>
   delays (snd (GetDataFromAPI (fails_once [4, 5]) ''https://api'')) = [2] \<and>
   isl (fst (GetDataFromAPI (always_status 500 []) ''https://api''))"
  using GetDataFromAPI_two_attempts [of "always_status 200 [1, 2, 3]" "''https://api''"]
    GetDataFromAPI_two_attempts [of "fails_once [4, 5]" "''https://api''"]
    GetDataFromAPI_two_attempts [of "always_status 500 []" "''https://api''"]
  by (simp add: always_status_def fails_once_def)

text \<open>
  C9: \<open>GetDataFromJSON\<close> reads the first character of the selector without a check, so the
  empty selector panics; a selector that is not empty gets "$" in front when it starts
  with '[' and "$." otherwise, and is handed to the JSON path evaluation.
\<close>

theorem GetDataFromJSON_selector:
  "GetDataFromJSON jsonpath_Get jsonObject [] = Panic ''index out of range'' \<and>
   (selector \<noteq> [] \<longrightarrow>
      GetDataFromJSON jsonpath_Get jsonObject selector =
        Returned (jsonpath_Get ((if hd selector = CHR ''['' then ''$'' else ''$.'') @ selector)
                    jsonObject))"
  by (cases selector) (simp_all add: GetDataFromJSON_def index_string_def)

theorem GetDataFromJSON_selector_witness:
  "GetDataFromJSON echo_path () [] = Panic ''index out of range'' \<and>
   GetDataFromJSON echo_path () ''[0].price'' = Returned ''$[0].price'' \<and>
   GetDataFromJSON echo_path () ''data.price'' = Returned ''$.data.price''"
  using GetDataFromJSON_selector [of echo_path "()" "''[0].price''"]
    GetDataFromJSON_selector [of echo_path "()" "''data.price''"]
  by (simp add: echo_path_def)

section \<open>Properties of the password check\<close>

lemma count_rune_total:
  "count_rune U c (l, u, p, d) = (l', u', p', d') \<Longrightarrow> l' + u' + p' + d' \<le> Suc (l + u + p + d)"
  by (auto simp: count_rune_def split: if_splits)

lemma fold_count_rune_total:
  "fold (count_rune U) cs (l, u, p, d) = (l', u', p', d') \<Longrightarrow>
     l' + u' + p' + d' \<le> l + u + p + d + length cs"
proof (induction cs arbitrary: l u p d)
  case Nil
  then show ?case by simp
next
  case (Cons c cs)
  obtain l1 u1 p1 d1 where s: "count_rune U c (l, u, p, d) = (l1, u1, p1, d1)"
    by (metis prod_cases4)
  from Cons.prems have "fold (count_rune U) cs (l1, u1, p1, d1) = (l', u', p', d')"
    by (simp add: s)
  from Cons.IH [OF this] count_rune_total [OF s] show ?case by simp
qed

lemma strongPassword_rune_count:
  assumes "strongPassword U input"
  shows "length input \<le> length (runes input)"
proof (cases "length input \<ge> 8")
  case True
  obtain l u p d where f: "fold (count_rune U) (runes input) (0, 0, 0, 0) = (l, u, p, d)"
    by (metis prod_cases4)
  from assms True f have "l + u + p + d = length input"
    by (simp add: strongPassword_def)
  with fold_count_rune_total [OF f] show ?thesis by auto
next
  case False
  with assms show ?thesis by (simp add: strongPassword_def)
qed

text \<open>
  C10: the claim reads the check character by character, and the code compares the number
  of classified runes with the number of bytes. An input that holds a character of more
  than one byte has fewer runes than bytes, so the code rejects it whatever its characters
  are: \<open>Passw0rd!\<close> followed by U+00E9 meets every condition of the claim and is rejected.
\<close>

theorem strongPassword_multibyte_rejected:
  "length (runes input) < length input \<Longrightarrow> \<not> strongPassword U input"
  using strongPassword_rune_count [of U input] by auto

theorem strongPassword_multibyte_rejected_witness:
  "length (runes accented_password) < length accented_password \<and>
   strongPassword_by_characters latin1_tables accented_password \<and>
   \<not> strongPassword latin1_tables accented_password"
proof -
  have h: "length (runes accented_password) < length accented_password"
    by (simp add: accented_password_def cont_def)
  have c: "strongPassword_by_characters latin1_tables accented_password"
    by (simp add: strongPassword_by_characters_def accented_password_def latin1_tables_def
        classified_def cont_def)
  from h c strongPassword_multibyte_rejected [OF h, of latin1_tables] show ?thesis by simp
qed

section \<open>Properties of the dispute engine\<close>

subsection \<open>Collection ids\<close>

lemma first_descending_Some:
  "first_descending xs k = Some (i, j) \<Longrightarrow>
     \<exists>n. i = k + n \<and> j = Suc (k + n) \<and> Suc n < length xs \<and> \<not> xs ! n < xs ! Suc n \<and>
         (\<forall>m<n. xs ! m < xs ! Suc m)"
proof (induction xs k rule: first_descending.induct)
  case (1 x y ys k)
  show ?case
  proof (cases "x < y")
    case True
    with 1 obtain n where n: "i = Suc k + n" "j = Suc (Suc k + n)" "Suc n < length (y # ys)"
      "\<not> (y # ys) ! n < (y # ys) ! Suc n" "\<forall>m<n. (y # ys) ! m < (y # ys) ! Suc m"
      by auto
    have "\<forall>m<Suc n. (x # y # ys) ! m < (x # y # ys) ! Suc m"
    proof (intro allI impI)
      fix m assume "m < Suc n"
      then show "(x # y # ys) ! m < (x # y # ys) ! Suc m"
        using True n(5) by (cases m) auto
    qed
    with n show ?thesis by (intro exI [of _ "Suc n"]) auto
  next
    case False
    with 1 show ?thesis by (intro exI [of _ 0]) auto
  qed
qed simp_all

lemma first_descending_None:
  "first_descending xs k = None \<longleftrightarrow> sorted_wrt (<) xs"
proof (induction xs k rule: first_descending.induct)
  case (1 x y ys k)
  have "sorted_wrt (<) (x # y # ys) \<longleftrightarrow> x < y \<and> sorted_wrt (<) (y # ys)"
    by auto
  with 1 show ?case by auto
qed simp_all

lemma first_extra_Some:
  "first_extra xs revealed k = Some (x, p) \<Longrightarrow>
     \<exists>n<length xs. p = k + n \<and> x = xs ! n \<and> x \<notin> set revealed \<and> (\<forall>j<n. xs ! j \<in> set revealed)"
proof (induction xs arbitrary: k)
  case Nil
  then show ?case by simp
next
  case (Cons a xs)
  show ?case
  proof (cases "a \<in> set revealed")
    case True
    with Cons obtain n where n: "n < length xs" "p = Suc k + n" "x = xs ! n" "x \<notin> set revealed"
      "\<forall>j<n. xs ! j \<in> set revealed"
      by fastforce
    have "\<forall>j<Suc n. (a # xs) ! j \<in> set revealed"
    proof (intro allI impI)
      fix j assume "j < Suc n"
      then show "(a # xs) ! j \<in> set revealed" using True n(5) by (cases j) auto
    qed
    with n show ?thesis by (intro exI [of _ "Suc n"]) auto
  next
    case False
    with Cons.prems show ?thesis by (intro exI [of _ 0]) auto
  qed
qed

lemma first_extra_None:
  "first_extra xs revealed k = None \<longleftrightarrow> set xs \<subseteq> set revealed"
  by (induction xs arbitrary: k) auto

lemma first_missing_None:
  "first_missing revealed idsInBlock = None \<longleftrightarrow> set revealed \<subseteq> set idsInBlock"
  by (auto simp add: first_missing_def find_None_iff)

lemma first_missing_Some:
  "first_missing revealed idsInBlock = Some m \<Longrightarrow>
     \<exists>k<length revealed. m = revealed ! k \<and> m \<notin> set idsInBlock \<and>
        (\<forall>j<k. revealed ! j \<in> set idsInBlock)"
  by (auto simp add: first_missing_def find_Some_iff)

lemma txns_submit:
  "txns (snd (submit c hist t g)) = [t]"
  by (simp add: submit_def Let_def)

lemma txns_submit_with_bump:
  "txns (snd (submit_with_bump c hist t)) = (case BlockGasLimit c of Inl e \<Rightarrow> [] | Inr cap \<Rightarrow> [t])"
  by (simp add: submit_with_bump_def IncreaseGasLimitValue_def submit_def Let_def
      split: sum.split option.split)

lemma CheckDisputeForIds_order:
  "first_descending ids 0 = Some (i, j) \<Longrightarrow>
     txns (snd (CheckDisputeForIds c hist epoch bi ids revealed)) = [DisputeOnOrderOfIds epoch bi i j]"
  by (simp add: CheckDisputeForIds_def submit_def Let_def split: option.split)

lemma CheckDisputeForIds_present:
  "first_descending ids 0 = None \<Longrightarrow> first_missing revealed ids = Some m \<Longrightarrow>
     CheckDisputeForIds c hist epoch bi ids revealed =
       submit_with_bump c hist (DisputeCollectionIdShouldBePresent epoch bi m)"
  by (simp add: CheckDisputeForIds_def)

lemma CheckDisputeForIds_absent:
  "first_descending ids 0 = None \<Longrightarrow> first_missing revealed ids = None \<Longrightarrow>
   first_extra ids revealed 0 = Some (x, p) \<Longrightarrow>
     CheckDisputeForIds c hist epoch bi ids revealed =
       submit_with_bump c hist (DisputeCollectionIdShouldBeAbsent epoch bi x p)"
  by (simp add: CheckDisputeForIds_def)

lemma CheckDisputeForIds_none:
  "first_descending ids 0 = None \<Longrightarrow> first_missing revealed ids = None \<Longrightarrow>
   first_extra ids revealed 0 = None \<Longrightarrow>
     CheckDisputeForIds c hist epoch bi ids revealed = (Inr None, [])"
  by (simp add: CheckDisputeForIds_def)

text \<open>
  C2: \<open>CheckDisputeForIds\<close> selects the sub-class in order. When the ids of the block do
  not ascend strictly, \<open>disputeOnOrderOfIds\<close> is sent with the indices of the first pair of
  neighbours that does not ascend. Otherwise, when a revealed id is missing from the block,
  \<open>disputeCollectionIdShouldBePresent\<close> is sent for the first such id. Otherwise, when the
  block holds an id that was not revealed, \<open>disputeCollectionIdShouldBeAbsent\<close> is sent with
  the first such id and its position in the block. (The last two are sent with the bumped
  gas limit, so only when the bump yields one.) When the ids ascend strictly and are the
  revealed ids, nothing is sent and no transaction is returned.
\<close>

theorem CheckDisputeForIds_sub_class_order:
  "(\<not> sorted_wrt (<) ids \<longrightarrow>
      (\<exists>i. Suc i < length ids \<and> \<not> ids ! i < ids ! Suc i \<and> (\<forall>k<i. ids ! k < ids ! Suc k) \<and>
           txns (snd (CheckDisputeForIds c hist epoch bi ids revealed)) =
             [DisputeOnOrderOfIds epoch bi i (Suc i)])) \<and>
   (sorted_wrt (<) ids \<and> \<not> set revealed \<subseteq> set ids \<longrightarrow>
      (\<exists>k<length revealed. revealed ! k \<notin> set ids \<and> (\<forall>j<k. revealed ! j \<in> set ids) \<and>
           txns (snd (CheckDisputeForIds c hist epoch bi ids revealed)) =
             (case BlockGasLimit c of
                Inl e \<Rightarrow> []
              | Inr cap \<Rightarrow> [DisputeCollectionIdShouldBePresent epoch bi (revealed ! k)]))) \<and>
   (sorted_wrt (<) ids \<and> set revealed \<subseteq> set ids \<and> \<not> set ids \<subseteq> set revealed \<longrightarrow>
      (\<exists>pos<length ids. ids ! pos \<notin> set revealed \<and> (\<forall>j<pos. ids ! j \<in> set revealed) \<and>
           txns (snd (CheckDisputeForIds c hist epoch bi ids revealed)) =
             (case BlockGasLimit c of
                Inl e \<Rightarrow> []
              | Inr cap \<Rightarrow> [DisputeCollectionIdShouldBeAbsent epoch bi (ids ! pos) pos]))) \<and>
   (sorted_wrt (<) ids \<and> set ids = set revealed \<longrightarrow>
      CheckDisputeForIds c hist epoch bi ids revealed = (Inr None, []))"
proof (intro conjI impI)
  assume "\<not> sorted_wrt (<) ids"
  then obtain i j where d: "first_descending ids 0 = Some (i, j)"
    using first_descending_None [of ids 0] by (cases "first_descending ids 0") auto
  from first_descending_Some [OF d] CheckDisputeForIds_order [OF d]
  show "\<exists>i. Suc i < length ids \<and> \<not> ids ! i < ids ! Suc i \<and> (\<forall>k<i. ids ! k < ids ! Suc k) \<and>
           txns (snd (CheckDisputeForIds c hist epoch bi ids revealed)) =
             [DisputeOnOrderOfIds epoch bi i (Suc i)]"
    by auto
next
  assume a: "sorted_wrt (<) ids \<and> \<not> set revealed \<subseteq> set ids"
  then have d: "first_descending ids 0 = None" by (simp add: first_descending_None)
  from a obtain m where m: "first_missing revealed ids = Some m"
    using first_missing_None [of revealed ids] by (cases "first_missing revealed ids") auto
  from first_missing_Some [OF m] obtain k where k: "k < length revealed" "m = revealed ! k"
    "m \<notin> set ids" "\<forall>j<k. revealed ! j \<in> set ids" by blast
  show "\<exists>k<length revealed. revealed ! k \<notin> set ids \<and> (\<forall>j<k. revealed ! j \<in> set ids) \<and>
           txns (snd (CheckDisputeForIds c hist epoch bi ids revealed)) =
             (case BlockGasLimit c of
                Inl e \<Rightarrow> []
              | Inr cap \<Rightarrow> [DisputeCollectionIdShouldBePresent epoch bi (revealed ! k)])"
    using k by (intro exI [of _ k]) (simp add: CheckDisputeForIds_present [OF d m] txns_submit_with_bump)
next
  assume a: "sorted_wrt (<) ids \<and> set revealed \<subseteq> set ids \<and> \<not> set ids \<subseteq> set revealed"
  then have d: "first_descending ids 0 = None" by (simp add: first_descending_None)
  from a have m: "first_missing revealed ids = None" by (simp add: first_missing_None)
  from a obtain x p where x: "first_extra ids revealed 0 = Some (x, p)"
    using first_extra_None [of ids revealed 0] by (cases "first_extra ids revealed 0") auto
  from first_extra_Some [OF x] obtain n where n: "n < length ids" "p = n" "x = ids ! n"
    "x \<notin> set revealed" "\<forall>j<n. ids ! j \<in> set revealed" by auto
  show "\<exists>pos<length ids. ids ! pos \<notin> set revealed \<and> (\<forall>j<pos. ids ! j \<in> set revealed) \<and>
           txns (snd (CheckDisputeForIds c hist epoch bi ids revealed)) =
             (case BlockGasLimit c of
                Inl e \<Rightarrow> []
              | Inr cap \<Rightarrow> [DisputeCollectionIdShouldBeAbsent epoch bi (ids ! pos) pos])"
    using n by (intro exI [of _ n]) (simp add: CheckDisputeForIds_absent [OF d m x] txns_submit_with_bump)
next
  assume a: "sorted_wrt (<) ids \<and> set ids = set revealed"
  then show "CheckDisputeForIds c hist epoch bi ids revealed = (Inr None, [])"
    by (intro CheckDisputeForIds_none) (simp_all add: first_descending_None first_missing_None first_extra_None)
qed


theorem CheckDisputeForIds_sub_class_order_witness:
  "\<not> sorted_wrt (<) [1, 3, 2 :: nat] \<and>
   txns (snd (CheckDisputeForIds (sample_chain accept_all (Inr 30000) (\<lambda>b. Inl ''no block'')) []
                7 0 [1, 3, 2] [1, 2, 3])) = [DisputeOnOrderOfIds 7 0 1 2] \<and>
   sorted_wrt (<) [1, 2, 4 :: nat] \<and> \<not> set [1, 2, 3 :: nat] \<subseteq> set [1, 2, 4] \<and>
   txns (snd (CheckDisputeForIds (sample_chain accept_all (Inr 30000) (\<lambda>b. Inl ''no block'')) []
                7 0 [1, 2, 4] [1, 2, 3])) = [DisputeCollectionIdShouldBePresent 7 0 3] \<and>
   sorted_wrt (<) [1, 2, 3, 4 :: nat] \<and> set [1, 2, 3 :: nat] \<subseteq> set [1, 2, 3, 4] \<and>
   \<not> set [1, 2, 3, 4 :: nat] \<subseteq> set [1, 2, 3] \<and>
   txns (snd (CheckDisputeForIds (sample_chain accept_all (Inr 30000) (\<lambda>b. Inl ''no block'')) []
                7 0 [1, 2, 3, 4] [1, 2, 3])) = [DisputeCollectionIdShouldBeAbsent 7 0 4 3] \<and>
   sorted_wrt (<) [1, 2, 3 :: nat] \<and>
   CheckDisputeForIds (sample_chain accept_all (Inr 30000) (\<lambda>b. Inl ''no block'')) []
     7 0 [1, 2, 3] [1, 2, 3] = (Inr None, [])"
  using
    CheckDisputeForIds_sub_class_order [where ids = "[1, 3, 2]" and revealed = "[1, 2, 3]"
      and c = "sample_chain accept_all (Inr 30000) (\<lambda>b. Inl ''no block'')" and hist = "[]"
      and epoch = 7 and bi = 0]
    CheckDisputeForIds_sub_class_order [where ids = "[1, 2, 4]" and revealed = "[1, 2, 3]"
      and c = "sample_chain accept_all (Inr 30000) (\<lambda>b. Inl ''no block'')" and hist = "[]"
      and epoch = 7 and bi = 0]
    CheckDisputeForIds_sub_class_order [where ids = "[1, 2, 3, 4]" and revealed = "[1, 2, 3]"
      and c = "sample_chain accept_all (Inr 30000) (\<lambda>b. Inl ''no block'')" and hist = "[]"
      and epoch = 7 and bi = 0]
    CheckDisputeForIds_sub_class_order [where ids = "[1, 2, 3]" and revealed = "[1, 2, 3]"
      and c = "sample_chain accept_all (Inr 30000) (\<lambda>b. Inl ''no block'')" and hist = "[]"
      and epoch = 7 and bi = 0]
  by (simp add: CheckDisputeForIds_def first_missing_def submit_with_bump_def
      IncreaseGasLimitValue_def submit_def sample_chain_def accept_all_def)

lemma steps_submit_with_bump:
  "Sent cl r \<in> set (snd (submit_with_bump c hist t)) \<Longrightarrow>
     \<exists>cap. BlockGasLimit c = Inr cap \<and> call_txn cl = t \<and>
           call_gas cl = min (EstimateGas c t * GasMultiplier c) cap"
  by (auto simp add: submit_with_bump_def IncreaseGasLimitValue_def submit_def Let_def
      split: sum.splits option.splits)

lemma submit_with_bump_fails:
  "BlockGasLimit c = Inl e \<Longrightarrow> submit_with_bump c hist t = (Inl e, [])"
  by (simp add: submit_with_bump_def IncreaseGasLimitValue_def)

lemma steps_CheckDisputeForIds_bump:
  assumes "Sent cl r \<in> set (snd (CheckDisputeForIds c hist epoch bi ids revealed))"
    and "needs_gas_bump (call_txn cl)"
  shows "\<exists>cap. BlockGasLimit c = Inr cap \<and>
               call_gas cl = min (EstimateGas c (call_txn cl) * GasMultiplier c) cap"
proof (cases "first_descending ids 0")
  case (Some ij)
  with assms show ?thesis
    by (cases ij) (auto simp add: CheckDisputeForIds_def submit_def Let_def split: option.splits)
next
  case None
  show ?thesis
  proof (cases "first_missing revealed ids")
    case (Some m)
    from assms(1) steps_submit_with_bump [of cl r c hist "DisputeCollectionIdShouldBePresent epoch bi m"]
    show ?thesis by (auto simp add: CheckDisputeForIds_present [OF None Some])
  next
    case missing: None
    show ?thesis
    proof (cases "first_extra ids revealed 0")
      case (Some xp)
      obtain x p where xp: "xp = (x, p)" by (cases xp)
      from assms(1) steps_submit_with_bump [of cl r c hist "DisputeCollectionIdShouldBeAbsent epoch bi x p"]
      show ?thesis by (auto simp add: CheckDisputeForIds_absent [OF None missing Some [unfolded xp]])
    next
      case extra: None
      from assms(1) show ?thesis by (simp add: CheckDisputeForIds_none [OF None missing extra])
    qed
  qed
qed

lemma CheckDisputeForIds_bump_fails:
  assumes "BlockGasLimit c = Inl e" "sorted_wrt (<) ids" "set ids \<noteq> set revealed"
  shows "CheckDisputeForIds c hist epoch bi ids revealed = (Inl e, [])"
proof -
  have d: "first_descending ids 0 = None" using assms(2) by (simp add: first_descending_None)
  show ?thesis
  proof (cases "first_missing revealed ids")
    case (Some m)
    show ?thesis by (simp add: CheckDisputeForIds_present [OF d Some] submit_with_bump_fails [OF assms(1)])
  next
    case None
    then have "set revealed \<subseteq> set ids" by (simp add: first_missing_None)
    with assms(3) have "\<not> set ids \<subseteq> set revealed" by auto
    then obtain x p where x: "first_extra ids revealed 0 = Some (x, p)"
      using first_extra_None [of ids revealed 0] by (cases "first_extra ids revealed 0") auto
    show ?thesis by (simp add: CheckDisputeForIds_absent [OF d None x] submit_with_bump_fails [OF assms(1)])
  qed
qed

text \<open>
  C4: every \<open>disputeCollectionIdShouldBePresent\<close> or \<open>disputeCollectionIdShouldBeAbsent\<close>
  that \<open>CheckDisputeForIds\<close> sends carries the estimated gas multiplied by the configured
  factor (capped at the block gas limit); when the increased limit cannot be obtained and
  one of the two is due, \<open>CheckDisputeForIds\<close> returns the error and sends nothing.
\<close>

theorem CheckDisputeForIds_gas_bump:
  "(\<forall>cl r. Sent cl r \<in> set (snd (CheckDisputeForIds c hist epoch bi ids revealed)) \<and>
            needs_gas_bump (call_txn cl) \<longrightarrow>
            (\<exists>cap. BlockGasLimit c = Inr cap \<and>
                   call_gas cl = min (EstimateGas c (call_txn cl) * GasMultiplier c) cap)) \<and>
   (\<forall>e. BlockGasLimit c = Inl e \<and> sorted_wrt (<) ids \<and> set ids \<noteq> set revealed \<longrightarrow>
        CheckDisputeForIds c hist epoch bi ids revealed = (Inl e, []))"
  using steps_CheckDisputeForIds_bump CheckDisputeForIds_bump_fails by blast

theorem CheckDisputeForIds_gas_bump_witness:
  "snd (CheckDisputeForIds (sample_chain accept_all (Inr 30000) (\<lambda>b. Inl ''no block'')) []
          7 0 [1, 2, 4] [1, 2, 3]) =
     [Sent \<lparr>call_txn = DisputeCollectionIdShouldBePresent 7 0 3, call_gas = 2000\<rparr> None] \<and>
   needs_gas_bump (DisputeCollectionIdShouldBePresent 7 0 3) \<and>
   EstimateGas (sample_chain accept_all (Inr 30000) (\<lambda>b. Inl ''no block''))
     (DisputeCollectionIdShouldBePresent 7 0 3) = 1000 \<and>
   snd (CheckDisputeForIds (sample_chain accept_all (Inr 1500) (\<lambda>b. Inl ''no block'')) []
          7 0 [1, 2, 3, 4] [1, 2, 3]) =
     [Sent \<lparr>call_txn = DisputeCollectionIdShouldBeAbsent 7 0 4 3, call_gas = 1500\<rparr> None] \<and>
   BlockGasLimit (sample_chain accept_all (Inl ''error in incremented gas limit'')
     (\<lambda>b. Inl ''no block'')) = Inl ''error in incremented gas limit'' \<and>
   sorted_wrt (<) [1, 2, 4 :: nat] \<and> set [1, 2, 4 :: nat] \<noteq> set [1, 2, 3] \<and>
   CheckDisputeForIds (sample_chain accept_all (Inl ''error in incremented gas limit'')
     (\<lambda>b. Inl ''no block'')) [] 7 0 [1, 2, 4] [1, 2, 3] =
     (Inl ''error in incremented gas limit'', [])"
  using
    CheckDisputeForIds_gas_bump [where ids = "[1, 2, 4]" and revealed = "[1, 2, 3]"
      and c = "sample_chain accept_all (Inr 30000) (\<lambda>b. Inl ''no block'')" and hist = "[]"
      and epoch = 7 and bi = 0]
    CheckDisputeForIds_gas_bump [where ids = "[1, 2, 3, 4]" and revealed = "[1, 2, 3]"
      and c = "sample_chain accept_all (Inr 1500) (\<lambda>b. Inl ''no block'')" and hist = "[]"
      and epoch = 7 and bi = 0]
    CheckDisputeForIds_gas_bump [where ids = "[1, 2, 4]" and revealed = "[1, 2, 3]"
      and c = "sample_chain accept_all (Inl ''error in incremented gas limit'') (\<lambda>b. Inl ''no block'')"
      and hist = "[]" and epoch = 7 and bi = 0]
  by (simp add: CheckDisputeForIds_def first_missing_def submit_with_bump_def
      IncreaseGasLimitValue_def submit_def sample_chain_def accept_all_def set_eq_subset)

subsection \<open>The giveSorted stream\<close>

lemma giveSorted_loop_stop:
  "length vals \<le> idx \<Longrightarrow> giveSorted_loop c epoch cid vals idx b hist = (True, [])"
  by (subst giveSorted_loop.simps) simp

lemma giveSorted_loop_accept:
  "idx < length vals \<Longrightarrow> 0 < b \<Longrightarrow>
   Send c hist \<lparr>call_txn = GiveSortedTx epoch cid (take b (drop idx vals)),
                call_gas = EstimateGas c (GiveSortedTx epoch cid (take b (drop idx vals)))\<rparr> = None \<Longrightarrow>
   giveSorted_loop c epoch cid vals idx b hist =
     (fst (giveSorted_loop c epoch cid vals (idx + length (take b (drop idx vals))) b
             (hist @ [Sent \<lparr>call_txn = GiveSortedTx epoch cid (take b (drop idx vals)),
                            call_gas = EstimateGas c (GiveSortedTx epoch cid (take b (drop idx vals)))\<rparr> None])),
      Sent \<lparr>call_txn = GiveSortedTx epoch cid (take b (drop idx vals)),
            call_gas = EstimateGas c (GiveSortedTx epoch cid (take b (drop idx vals)))\<rparr> None #
      snd (giveSorted_loop c epoch cid vals (idx + length (take b (drop idx vals))) b
             (hist @ [Sent \<lparr>call_txn = GiveSortedTx epoch cid (take b (drop idx vals)),
                            call_gas = EstimateGas c (GiveSortedTx epoch cid (take b (drop idx vals)))\<rparr> None])))"
  by (subst giveSorted_loop.simps) (simp add: submit_def Let_def split: prod.split)

lemma giveSorted_loop_halve:
  "idx < length vals \<Longrightarrow> 1 < b \<Longrightarrow>
   Send c hist \<lparr>call_txn = GiveSortedTx epoch cid (take b (drop idx vals)),
                call_gas = EstimateGas c (GiveSortedTx epoch cid (take b (drop idx vals)))\<rparr> =
     Some ''gas limit reached'' \<Longrightarrow>
   giveSorted_loop c epoch cid vals idx b hist =
     (fst (giveSorted_loop c epoch cid vals idx (b div 2)
             (hist @ [Sent \<lparr>call_txn = GiveSortedTx epoch cid (take b (drop idx vals)),
                            call_gas = EstimateGas c (GiveSortedTx epoch cid (take b (drop idx vals)))\<rparr>
                        (Some ''gas limit reached'')])),
      Sent \<lparr>call_txn = GiveSortedTx epoch cid (take b (drop idx vals)),
            call_gas = EstimateGas c (GiveSortedTx epoch cid (take b (drop idx vals)))\<rparr>
        (Some ''gas limit reached'') #
      snd (giveSorted_loop c epoch cid vals idx (b div 2)
             (hist @ [Sent \<lparr>call_txn = GiveSortedTx epoch cid (take b (drop idx vals)),
                            call_gas = EstimateGas c (GiveSortedTx epoch cid (take b (drop idx vals)))\<rparr>
                        (Some ''gas limit reached'')])))"
  by (subst giveSorted_loop.simps) (simp add: submit_def Let_def split: prod.split)

lemma giveSorted_loop_give_up:
  "idx < length vals \<Longrightarrow> 0 < b \<Longrightarrow>
   Send c hist \<lparr>call_txn = GiveSortedTx epoch cid (take b (drop idx vals)),
                call_gas = EstimateGas c (GiveSortedTx epoch cid (take b (drop idx vals)))\<rparr> = Some e \<Longrightarrow>
   \<not> (e = ''gas limit reached'' \<and> 1 < b) \<Longrightarrow>
   giveSorted_loop c epoch cid vals idx b hist =
     (False, [Sent \<lparr>call_txn = GiveSortedTx epoch cid (take b (drop idx vals)),
                    call_gas = EstimateGas c (GiveSortedTx epoch cid (take b (drop idx vals)))\<rparr> (Some e)])"
  by (subst giveSorted_loop.simps) (auto simp add: submit_def Let_def)

lemma giveSorted_loop_follows:
  "0 < b \<Longrightarrow>
   follows_stream epoch cid vals idx b (fst (giveSorted_loop c epoch cid vals idx b hist))
     (snd (giveSorted_loop c epoch cid vals idx b hist))"
proof (induction c epoch cid vals idx b hist rule: giveSorted_loop.induct)
  case (1 c epoch cid vals idx b hist)
  let ?t = "GiveSortedTx epoch cid (take b (drop idx vals))"
  let ?cl = "\<lparr>call_txn = ?t, call_gas = EstimateGas c ?t\<rparr>"
  show ?case
  proof (cases "length vals \<le> idx")
    case True
    then show ?thesis by (simp add: giveSorted_loop_stop)
  next
    case False
    then have lt: "idx < length vals" by simp
    have nz: "b \<noteq> 0" using "1.prems" by simp
    have sub: "(Send c hist ?cl, [Sent ?cl (Send c hist ?cl)]) = submit c hist ?t (EstimateGas c ?t)"
      by (simp add: submit_def Let_def)
    show ?thesis
    proof (cases "Send c hist ?cl")
      case None
      have "follows_stream epoch cid vals (idx + length (take b (drop idx vals))) b
              (fst (giveSorted_loop c epoch cid vals (idx + length (take b (drop idx vals))) b
                      (hist @ [Sent ?cl None])))
              (snd (giveSorted_loop c epoch cid vals (idx + length (take b (drop idx vals))) b
                      (hist @ [Sent ?cl None])))"
        using "1.IH"(1) [OF False nz sub None] "1.prems" None by simp
      then show ?thesis
        using lt "1.prems" None by (simp add: giveSorted_loop_accept)
    next
      case (Some e)
      show ?thesis
      proof (cases "e = ''gas limit reached'' \<and> 1 < b")
        case True
        then have pos: "0 < b div 2" by simp
        have "follows_stream epoch cid vals idx (b div 2)
                (fst (giveSorted_loop c epoch cid vals idx (b div 2) (hist @ [Sent ?cl (Some e)])))
                (snd (giveSorted_loop c epoch cid vals idx (b div 2) (hist @ [Sent ?cl (Some e)])))"
          using "1.IH"(2) [OF False nz sub Some True pos] Some by simp
        then show ?thesis
          using lt True Some by (simp add: giveSorted_loop_halve)
      next
        case no: False
        show ?thesis
          using lt "1.prems" Some no by (simp add: giveSorted_loop_give_up)
      qed
    qed
  qed
qed


lemma giveSorted_loop_zero:
  "idx < length vals \<Longrightarrow> giveSorted_loop c epoch cid vals idx 0 hist = (False, [])"
  by (subst giveSorted_loop.simps) simp

lemma take_drop_length:
  "take b ys @ drop (length (take b ys)) ys = ys"
proof (cases "b \<le> length ys")
  case True
  then have "length (take b ys) = b" by simp
  then show ?thesis by (simp only: append_take_drop_id)
next
  case False
  then have "take b ys = ys" by simp
  then show ?thesis by simp
qed

lemma take_drop_resume:
  "take b (drop idx vals) @ drop (idx + min (length vals - idx) b) vals = drop idx vals"
proof -
  have e: "drop (idx + n) vals = drop n (drop idx vals)" for n
    by (simp add: add.commute)
  have "take b (drop idx vals) @ drop (idx + length (take b (drop idx vals))) vals = drop idx vals"
    unfolding e by (rule take_drop_length)
  then show ?thesis by simp
qed

lemma giveSorted_loop_accepted:
  "fst (giveSorted_loop c epoch cid vals idx b hist) \<Longrightarrow>
   accepted_values (snd (giveSorted_loop c epoch cid vals idx b hist)) = drop idx vals"
proof (induction c epoch cid vals idx b hist rule: giveSorted_loop.induct)
  case (1 c epoch cid vals idx b hist)
  let ?t = "GiveSortedTx epoch cid (take b (drop idx vals))"
  let ?cl = "\<lparr>call_txn = ?t, call_gas = EstimateGas c ?t\<rparr>"
  show ?case
  proof (cases "length vals \<le> idx")
    case True
    then show ?thesis by (simp add: giveSorted_loop_stop)
  next
    case False
    then have lt: "idx < length vals" by simp
    have nz: "b \<noteq> 0" using "1.prems" lt by (cases "b = 0") (simp_all add: giveSorted_loop_zero)
    then have pos: "0 < b" by simp
    have sub: "(Send c hist ?cl, [Sent ?cl (Send c hist ?cl)]) = submit c hist ?t (EstimateGas c ?t)"
      by (simp add: submit_def Let_def)
    show ?thesis
    proof (cases "Send c hist ?cl")
      case None
      have ok: "fst (giveSorted_loop c epoch cid vals (idx + length (take b (drop idx vals))) b
                      (hist @ [Sent ?cl None]))"
        using "1.prems" lt pos None by (simp add: giveSorted_loop_accept)
      have "accepted_values
              (snd (giveSorted_loop c epoch cid vals (idx + length (take b (drop idx vals))) b
                      (hist @ [Sent ?cl None]))) =
            drop (idx + length (take b (drop idx vals))) vals"
        using "1.IH"(1) [OF False nz sub None] ok None by simp
      then show ?thesis
        using lt pos None by (simp add: giveSorted_loop_accept take_drop_resume)
    next
      case (Some e)
      show ?thesis
      proof (cases "e = ''gas limit reached'' \<and> 1 < b")
        case True
        have ok: "fst (giveSorted_loop c epoch cid vals idx (b div 2) (hist @ [Sent ?cl (Some e)]))"
          using "1.prems" lt True Some by (simp add: giveSorted_loop_halve)
        have "accepted_values
                (snd (giveSorted_loop c epoch cid vals idx (b div 2) (hist @ [Sent ?cl (Some e)]))) =
              drop idx vals"
          using "1.IH"(2) [OF False nz sub Some True] ok Some by simp
        then show ?thesis
          using lt True Some by (simp add: giveSorted_loop_halve)
      next
        case no: False
        show ?thesis
          using "1.prems" lt pos Some no by (simp add: giveSorted_loop_give_up)
      qed
    qed
  qed
qed

lemma giveSorted_loop_all_gas:
  assumes gas: "\<forall>h cl. Send c h cl = Some ''gas limit reached''" and ne: "vals \<noteq> []"
  shows "\<not> fst (giveSorted_loop c epoch cid vals 0 20 hist) \<and>
         batches (snd (giveSorted_loop c epoch cid vals 0 20 hist)) =
           [take 20 vals, take 10 vals, take 5 vals, take 2 vals, take 1 vals]"
proof -
  have lt: "0 < length vals" using ne by simp
  have g: "\<And>h cl. Send c h cl = Some ''gas limit reached''" using gas by simp
  show ?thesis
    by (simp add: giveSorted_loop_halve [OF lt _ g] giveSorted_loop_give_up [OF lt _ g])
qed

text \<open>
  C3: the giveSorted stream. An empty list of values sends nothing. For every list of
  values the batches sent follow the protocol from index 0 with batch size 20: each batch
  starts at the last accepted index, "gas limit reached" halves the batch size and sends
  again from the same index, and at batch size 1 (or on another error) the engine gives
  up. When the stream succeeds, the accepted batches are the values, each sent once and in
  order. When the chain answers every batch with "gas limit reached", the same first
  values are sent in batches of size 20, 10, 5, 2 and 1, and then the engine gives up.
\<close>

theorem GiveSorted_batches:
  "GiveSorted c hist epoch cid [] = (True, []) \<and>
   follows_stream epoch cid vals 0 20 (fst (GiveSorted c hist epoch cid vals))
     (snd (GiveSorted c hist epoch cid vals)) \<and>
   (fst (GiveSorted c hist epoch cid vals) \<longrightarrow>
      accepted_values (snd (GiveSorted c hist epoch cid vals)) = vals) \<and>
   ((\<forall>h cl. Send c h cl = Some ''gas limit reached'') \<and> vals \<noteq> [] \<longrightarrow>
      \<not> fst (GiveSorted c hist epoch cid vals) \<and>
      batches (snd (GiveSorted c hist epoch cid vals)) =
        [take 20 vals, take 10 vals, take 5 vals, take 2 vals, take 1 vals])"
proof (intro conjI impI)
  show "GiveSorted c hist epoch cid [] = (True, [])"
    by (simp add: GiveSorted_def giveSorted_loop_stop)
  show "follows_stream epoch cid vals 0 20 (fst (GiveSorted c hist epoch cid vals))
          (snd (GiveSorted c hist epoch cid vals))"
    unfolding GiveSorted_def by (rule giveSorted_loop_follows) simp
  show "accepted_values (snd (GiveSorted c hist epoch cid vals)) = vals"
    if "fst (GiveSorted c hist epoch cid vals)"
    using giveSorted_loop_accepted [of c epoch cid vals 0 20 hist] that
    by (simp add: GiveSorted_def)
  show "\<not> fst (GiveSorted c hist epoch cid vals)"
    if "(\<forall>h cl. Send c h cl = Some ''gas limit reached'') \<and> vals \<noteq> []"
    using giveSorted_loop_all_gas [of c vals epoch cid hist] that by (simp add: GiveSorted_def)
  show "batches (snd (GiveSorted c hist epoch cid vals)) =
          [take 20 vals, take 10 vals, take 5 vals, take 2 vals, take 1 vals]"
    if "(\<forall>h cl. Send c h cl = Some ''gas limit reached'') \<and> vals \<noteq> []"
    using giveSorted_loop_all_gas [of c vals epoch cid hist] that by (simp add: GiveSorted_def)
qed


theorem GiveSorted_batches_witness:
  "GiveSorted (sample_chain (revert_first 1 ''gas limit reached'') (Inr 30000) (\<lambda>b. Inl ''no block'')) [] 7 1 [] = (True, []) \<and>
   fst (GiveSorted (sample_chain (revert_first 1 ''gas limit reached'') (Inr 30000) (\<lambda>b. Inl ''no block'')) [] 7 1 [1, 2, 3, 4, 5, 6, 7, 8, 9, 10, 11, 12, 13, 14, 15, 16, 17, 18, 19, 20, 21, 22]) \<and>
   batches (snd (GiveSorted (sample_chain (revert_first 1 ''gas limit reached'') (Inr 30000) (\<lambda>b. Inl ''no block'')) [] 7 1 [1, 2, 3, 4, 5, 6, 7, 8, 9, 10, 11, 12, 13, 14, 15, 16, 17, 18, 19, 20, 21, 22])) =
     [[1, 2, 3, 4, 5, 6, 7, 8, 9, 10, 11, 12, 13, 14, 15, 16, 17, 18, 19, 20],
      [1, 2, 3, 4, 5, 6, 7, 8, 9, 10], [11, 12, 13, 14, 15, 16, 17, 18, 19, 20], [21, 22]] \<and>
   accepted_values (snd (GiveSorted (sample_chain (revert_first 1 ''gas limit reached'') (Inr 30000) (\<lambda>b. Inl ''no block'')) [] 7 1 [1, 2, 3, 4, 5, 6, 7, 8, 9, 10, 11, 12, 13, 14, 15, 16, 17, 18, 19, 20, 21, 22])) = [1, 2, 3, 4, 5, 6, 7, 8, 9, 10, 11, 12, 13, 14, 15, 16, 17, 18, 19, 20, 21, 22] \<and>
   \<not> fst (GiveSorted (sample_chain (revert_all ''gas limit reached'') (Inr 30000) (\<lambda>b. Inl ''no block'')) [] 7 1 [100, 200, 300]) \<and>
   batches (snd (GiveSorted (sample_chain (revert_all ''gas limit reached'') (Inr 30000) (\<lambda>b. Inl ''no block'')) [] 7 1 [100, 200, 300])) =
     [[100, 200, 300], [100, 200, 300], [100, 200, 300], [100, 200], [100]]"
  using
    GiveSorted_batches [where c = "sample_chain (revert_first 1 ''gas limit reached'') (Inr 30000) (\<lambda>b. Inl ''no block'')" and hist = "[]" and epoch = 7 and cid = 1 and vals = "[1, 2, 3, 4, 5, 6, 7, 8, 9, 10, 11, 12, 13, 14, 15, 16, 17, 18, 19, 20, 21, 22]"]
    GiveSorted_batches [where c = "sample_chain (revert_all ''gas limit reached'') (Inr 30000) (\<lambda>b. Inl ''no block'')" and hist = "[]" and epoch = 7 and cid = 1
      and vals = "[100, 200, 300]"]
  by (simp add: GiveSorted_def giveSorted_loop_stop giveSorted_loop_accept giveSorted_loop_halve
      giveSorted_loop_give_up sample_chain_def revert_first_def revert_all_def)

subsection \<open>The dispute pass\<close>

lemma txns_append:
  "txns (xs @ ys) = txns xs @ txns ys"
  by (induction xs rule: txns.induct) simp_all

lemma visited_append:
  "visited (xs @ ys) = visited xs @ visited ys"
  by (induction xs rule: visited.induct) simp_all

lemma steps_giveSorted_loop:
  "s \<in> set (snd (giveSorted_loop c epoch cid vals idx b hist)) \<Longrightarrow>
     \<exists>cl r batch. s = Sent cl r \<and> call_txn cl = GiveSortedTx epoch cid batch"
proof (induction c epoch cid vals idx b hist rule: giveSorted_loop.induct)
  case (1 c epoch cid vals idx b hist)
  let ?t = "GiveSortedTx epoch cid (take b (drop idx vals))"
  let ?cl = "\<lparr>call_txn = ?t, call_gas = EstimateGas c ?t\<rparr>"
  show ?case
  proof (cases "length vals \<le> idx")
    case True
    with "1.prems" show ?thesis by (simp add: giveSorted_loop_stop)
  next
    case False
    then have lt: "idx < length vals" by simp
    show ?thesis
    proof (cases "b = 0")
      case True
      with "1.prems" lt show ?thesis by (simp add: giveSorted_loop_zero)
    next
      case nz: False
      then have pos: "0 < b" by simp
      have sub: "(Send c hist ?cl, [Sent ?cl (Send c hist ?cl)]) = submit c hist ?t (EstimateGas c ?t)"
        by (simp add: submit_def Let_def)
      show ?thesis
      proof (cases "Send c hist ?cl")
        case None
        from "1.prems" lt pos None
        have "s = Sent ?cl None \<or>
              s \<in> set (snd (giveSorted_loop c epoch cid vals (idx + length (take b (drop idx vals))) b
                               (hist @ [Sent ?cl None])))"
          by (simp add: giveSorted_loop_accept)
        then show ?thesis
        proof
          assume "s = Sent ?cl None"
          then show ?thesis by simp
        next
          assume "s \<in> set (snd (giveSorted_loop c epoch cid vals
                    (idx + length (take b (drop idx vals))) b (hist @ [Sent ?cl None])))"
          then show ?thesis using "1.IH"(1) [OF False nz sub None] None by simp
        qed
      next
        case (Some e)
        show ?thesis
        proof (cases "e = ''gas limit reached'' \<and> 1 < b")
          case True
          from "1.prems" lt True Some
          have "s = Sent ?cl (Some e) \<or>
                s \<in> set (snd (giveSorted_loop c epoch cid vals idx (b div 2)
                                 (hist @ [Sent ?cl (Some e)])))"
            by (simp add: giveSorted_loop_halve)
          then show ?thesis
          proof
            assume "s = Sent ?cl (Some e)"
            then show ?thesis by simp
          next
            assume "s \<in> set (snd (giveSorted_loop c epoch cid vals idx (b div 2)
                      (hist @ [Sent ?cl (Some e)])))"
            then show ?thesis using "1.IH"(2) [OF False nz sub Some True] Some by simp
          qed
        next
          case no: False
          from "1.prems" lt pos Some no show ?thesis by (simp add: giveSorted_loop_give_up)
        qed
      qed
    qed
  qed
qed

lemma txns_only_giveSorted:
  "(\<And>s. s \<in> set ss \<Longrightarrow> \<exists>cl r batch. s = Sent cl r \<and> call_txn cl = GiveSortedTx epoch cid batch) \<Longrightarrow>
   (\<forall>t\<in>set (txns ss). class_of t = Some MedianClass) \<and> visited ss = [] \<and>
   (\<forall>ys. failures_logged (ss @ ys) = failures_logged ys) \<and> (ss \<noteq> [] \<longrightarrow> txns ss \<noteq> [])"
proof (induction ss)
  case Nil
  show ?case by simp
next
  case (Cons a ss)
  from Cons.prems [of a] obtain cl r batch where a: "a = Sent cl r" "call_txn cl = GiveSortedTx epoch cid batch"
    by auto
  have "\<And>s. s \<in> set ss \<Longrightarrow> \<exists>cl r batch. s = Sent cl r \<and> call_txn cl = GiveSortedTx epoch cid batch"
    using Cons.prems by simp
  from Cons.IH [OF this] a show ?case by (cases r) simp_all
qed

lemma GiveSorted_steps:
  "(\<forall>t\<in>set (txns (snd (giveSorted_loop c epoch cid vals idx b hist))). class_of t = Some MedianClass) \<and>
   visited (snd (giveSorted_loop c epoch cid vals idx b hist)) = [] \<and>
   (\<forall>ys. failures_logged (snd (giveSorted_loop c epoch cid vals idx b hist) @ ys) = failures_logged ys) \<and>
   (snd (giveSorted_loop c epoch cid vals idx b hist) \<noteq> [] \<longrightarrow>
      txns (snd (giveSorted_loop c epoch cid vals idx b hist)) \<noteq> [])"
  by (rule txns_only_giveSorted) (rule steps_giveSorted_loop)


lemma giveSorted_loop_failed_steps:
  assumes "0 < b" "\<not> fst (giveSorted_loop c epoch cid vals idx b hist)"
  shows "snd (giveSorted_loop c epoch cid vals idx b hist) \<noteq> []"
proof
  assume "snd (giveSorted_loop c epoch cid vals idx b hist) = []"
  with giveSorted_loop_follows [OF assms(1), of epoch cid vals idx c hist] assms(2)
  show False by simp
qed

lemma Dispute_steps:
  assumes "Dispute c hist epoch bi cid i vs = (r, ds)"
  shows "(\<forall>t\<in>set (txns ds). class_of t = Some MedianClass) \<and> visited ds = [] \<and> txns ds \<noteq> [] \<and>
         (case r of
            None \<Rightarrow> \<forall>ys. failures_logged (ds @ ys) = failures_logged ys
          | Some e \<Rightarrow> \<forall>ys. failures_logged (ds @ Logged e # ys) = failures_logged ys)"
proof -
  obtain ok gs where g: "giveSorted_loop c epoch cid vs 0 20 hist = (ok, gs)"
    by (cases "giveSorted_loop c epoch cid vs 0 20 hist")
  have gs: "(\<forall>t\<in>set (txns gs). class_of t = Some MedianClass) \<and> visited gs = [] \<and>
            (\<forall>ys. failures_logged (gs @ ys) = failures_logged ys) \<and> (gs \<noteq> [] \<longrightarrow> txns gs \<noteq> [])"
    using GiveSorted_steps [of c epoch cid vs 0 20 hist] by (simp add: g)
  show ?thesis
  proof (cases ok)
    case False
    have r: "r = Some ''giveSorted gave up''" and ds: "ds = gs"
      using assms False by (simp_all add: Dispute_def GiveSorted_def g)
    have "gs \<noteq> []"
      using giveSorted_loop_failed_steps [of 20 c epoch cid vs 0 hist] False by (simp add: g)
    then show ?thesis using gs by (simp add: r ds)
  next
    case True
    obtain cl where ds: "ds = gs @ [Sent cl r]" and cl: "call_txn cl = FinalizeDispute epoch bi i"
      using assms True by (auto simp add: Dispute_def GiveSorted_def g submit_def Let_def)
    show ?thesis
      using gs cl by (cases r) (simp_all add: ds txns_append visited_append)
  qed
qed

lemma submit_with_bump_steps:
  assumes "submit_with_bump c hist t = (r, steps)"
  shows "set (txns steps) \<subseteq> {t} \<and> visited steps = [] \<and> length (txns steps) \<le> 1 \<and> r \<noteq> Inr None \<and>
         (case r of
            Inl e \<Rightarrow> \<forall>ys. failures_logged (steps @ Logged e # ys) = failures_logged ys
          | Inr x \<Rightarrow> \<forall>ys. failures_logged (steps @ ys) = failures_logged ys)"
proof (cases "BlockGasLimit c")
  case (Inl e)
  with assms show ?thesis
    by (auto simp add: submit_with_bump_def IncreaseGasLimitValue_def)
next
  case (Inr cap)
  show ?thesis
  proof (cases "Send c hist \<lparr>call_txn = t, call_gas = min (EstimateGas c t * GasMultiplier c) cap\<rparr>")
    case None
    with assms Inr show ?thesis
      by (auto simp add: submit_with_bump_def IncreaseGasLimitValue_def submit_def Let_def)
  next
    case (Some e)
    with assms Inr show ?thesis
      by (auto simp add: submit_with_bump_def IncreaseGasLimitValue_def submit_def Let_def)
  qed
qed

lemma CheckDisputeForIds_steps:
  assumes "CheckDisputeForIds c hist epoch bi ids revealed = (r, steps)"
  shows "(\<forall>t\<in>set (txns steps). class_of t = Some CollectionIdClass) \<and> visited steps = [] \<and>
         length (txns steps) \<le> 1 \<and> (r = Inr None \<longrightarrow> steps = []) \<and>
         (case r of
            Inl e \<Rightarrow> \<forall>ys. failures_logged (steps @ Logged e # ys) = failures_logged ys
          | Inr x \<Rightarrow> \<forall>ys. failures_logged (steps @ ys) = failures_logged ys)"
proof (cases "first_descending ids 0")
  case (Some ij)
  obtain i j where ij: "ij = (i, j)" by (cases ij)
  let ?cl = "\<lparr>call_txn = DisputeOnOrderOfIds epoch bi i j,
              call_gas = EstimateGas c (DisputeOnOrderOfIds epoch bi i j)\<rparr>"
  show ?thesis
  proof (cases "Send c hist ?cl")
    case None
    with assms Some ij show ?thesis
      by (auto simp add: CheckDisputeForIds_def submit_def Let_def)
  next
    case e: (Some e)
    with assms Some ij show ?thesis
      by (auto simp add: CheckDisputeForIds_def submit_def Let_def)
  qed
next
  case None
  show ?thesis
  proof (cases "first_missing revealed ids")
    case (Some m)
    from assms have "submit_with_bump c hist (DisputeCollectionIdShouldBePresent epoch bi m) = (r, steps)"
      by (simp add: CheckDisputeForIds_present [OF None Some])
    from submit_with_bump_steps [OF this] show ?thesis by auto
  next
    case missing: None
    show ?thesis
    proof (cases "first_extra ids revealed 0")
      case (Some xp)
      obtain x p where xp: "xp = (x, p)" by (cases xp)
      from assms have "submit_with_bump c hist (DisputeCollectionIdShouldBeAbsent epoch bi x p) = (r, steps)"
        by (simp add: CheckDisputeForIds_absent [OF None missing Some [unfolded xp]])
      from submit_with_bump_steps [OF this] show ?thesis by auto
    next
      case extra: None
      from assms show ?thesis by (auto simp add: CheckDisputeForIds_none [OF None missing extra])
    qed
  qed
qed




lemma CheckDisputeForIds_visited:
  "CheckDisputeForIds c hist epoch bi ids revealed = (r, steps) \<Longrightarrow> visited steps = []"
  by (simp add: CheckDisputeForIds_steps)

lemma CheckDisputeForIds_logged_Inl:
  "CheckDisputeForIds c hist epoch bi ids revealed = (Inl e, steps) \<Longrightarrow>
     failures_logged (steps @ Logged e # ys) = failures_logged ys"
  using CheckDisputeForIds_steps [of c hist epoch bi ids revealed "Inl e" steps] by simp

lemma CheckDisputeForIds_logged_Inr:
  "CheckDisputeForIds c hist epoch bi ids revealed = (Inr x, steps) \<Longrightarrow>
     failures_logged (steps @ ys) = failures_logged ys"
  using CheckDisputeForIds_steps [of c hist epoch bi ids revealed "Inr x" steps] by simp

lemma CheckDisputeForIds_nothing:
  "CheckDisputeForIds c hist epoch bi ids revealed = (Inr None, steps) \<Longrightarrow> steps = []"
  using CheckDisputeForIds_steps [of c hist epoch bi ids revealed "Inr None" steps] by simp

lemma Dispute_visited:
  "Dispute c hist epoch bi cid i vs = (r, ds) \<Longrightarrow> visited ds = []"
  by (simp add: Dispute_steps)

lemma Dispute_logged_None:
  "Dispute c hist epoch bi cid i vs = (None, ds) \<Longrightarrow>
     failures_logged (ds @ ys) = failures_logged ys"
  using Dispute_steps [of c hist epoch bi cid i vs None ds] by simp

lemma Dispute_logged_Some:
  "Dispute c hist epoch bi cid i vs = (Some e, ds) \<Longrightarrow>
     failures_logged (ds @ Logged e # ys) = failures_logged ys"
  using Dispute_steps [of c hist epoch bi cid i vs "Some e" ds] by simp

lemma handle_block_visited:
  "visited (handle_block c epoch biggest canon sortedIds hist b) = [b]"
  by (auto simp add: handle_block_def submit_def Let_def visited_append
      split: sum.split option.split prod.split
      dest: CheckDisputeForIds_visited Dispute_visited CheckDisputeForIds_nothing)

lemma handle_block_logged:
  "failures_logged (handle_block c epoch biggest canon sortedIds hist b @ ys) = failures_logged ys"
  by (auto simp add: handle_block_def submit_def Let_def
      CheckDisputeForIds_logged_Inl CheckDisputeForIds_logged_Inr
      Dispute_logged_None Dispute_logged_Some
      split: sum.split option.split prod.split
      dest: CheckDisputeForIds_nothing)


lemma handle_blocks_visited:
  "visited (handle_blocks c epoch biggest canon sortedIds hist bs) = bs"
  by (induction bs arbitrary: hist) (simp_all add: visited_append handle_block_visited)

lemma handle_blocks_logged:
  "failures_logged (handle_blocks c epoch biggest canon sortedIds hist bs @ ys) = failures_logged ys"
  by (induction bs arbitrary: hist) (simp_all add: handle_block_logged)

lemma handle_block_stake:
  assumes "GetProposedBlock c epoch b = Inr blk" "index_of sortedIds b 0 = Some bi"
    "\<not> AlreadyDisputed c epoch bi" "Valid blk" "BiggestStake blk \<noteq> biggest"
  shows "handle_block c epoch biggest canon sortedIds hist b =
           Visit b #
           (case Send c (hist @ [Visit b])
                   \<lparr>call_txn = DisputeBiggestStakeProposed epoch bi,
                    call_gas = EstimateGas c (DisputeBiggestStakeProposed epoch bi)\<rparr> of
              None \<Rightarrow> [Sent \<lparr>call_txn = DisputeBiggestStakeProposed epoch bi,
                             call_gas = EstimateGas c (DisputeBiggestStakeProposed epoch bi)\<rparr> None,
                       RecordBounty bi]
            | Some e \<Rightarrow> [Sent \<lparr>call_txn = DisputeBiggestStakeProposed epoch bi,
                               call_gas = EstimateGas c (DisputeBiggestStakeProposed epoch bi)\<rparr> (Some e),
                         Logged e])"
  using assms by (simp add: handle_block_def submit_def Let_def split: option.split)




text \<open>
  C7: when the three reads at the start of the pass succeed, \<open>HandleDispute\<close> returns no
  error whatever the chain answers to the transactions; every block of the shuffled list
  is visited, in that order; and each dispute transaction that failed is followed by the
  log line of its failure. In particular, when the biggest-stake dispute of a block
  reverts (say with "Block already has been disputed"), the steps for that block are the
  visit, the failed transaction and the log line, and the pass goes on.
\<close>

theorem HandleDispute_benign_revert:
  assumes ids: "GetSortedProposedBlockIds c epoch = Inr sortedIds"
    and stake: "GetBiggestStake c epoch = Inr biggest"
    and medians: "GetLocalMediansData c epoch = Inr canon"
  shows "fst (HandleDispute c epoch) = None \<and>
         visited (snd (HandleDispute c epoch)) = Shuffle c sortedIds \<and>
         failures_logged (snd (HandleDispute c epoch)) \<and>
         (\<forall>hist b blk bi e.
            GetProposedBlock c epoch b = Inr blk \<and> index_of sortedIds b 0 = Some bi \<and>
            \<not> AlreadyDisputed c epoch bi \<and> Valid blk \<and> BiggestStake blk \<noteq> biggest \<and>
            Send c (hist @ [Visit b])
              \<lparr>call_txn = DisputeBiggestStakeProposed epoch bi,
               call_gas = EstimateGas c (DisputeBiggestStakeProposed epoch bi)\<rparr> = Some e \<longrightarrow>
            handle_block c epoch biggest canon sortedIds hist b =
              [Visit b,
               Sent \<lparr>call_txn = DisputeBiggestStakeProposed epoch bi,
                     call_gas = EstimateGas c (DisputeBiggestStakeProposed epoch bi)\<rparr> (Some e),
               Logged e])"
proof (intro conjI allI impI)
  let ?steps = "handle_blocks c epoch biggest canon sortedIds [] (Shuffle c sortedIds)"
  let ?reset = "\<lparr>call_txn = ResetDispute epoch, call_gas = EstimateGas c (ResetDispute epoch)\<rparr>"
  have run: "HandleDispute c epoch = (None, ?steps @ [Sent ?reset (Send c ?steps ?reset)])"
    by (simp add: HandleDispute_def ids stake medians submit_def Let_def)
  show "fst (HandleDispute c epoch) = None" by (simp add: run)
  show "visited (snd (HandleDispute c epoch)) = Shuffle c sortedIds"
    by (simp add: run visited_append handle_blocks_visited)
  show "failures_logged (snd (HandleDispute c epoch))"
    by (cases "Send c ?steps ?reset") (simp_all add: run handle_blocks_logged)
next
  fix hist b blk bi e
  assume a: "GetProposedBlock c epoch b = Inr blk \<and> index_of sortedIds b 0 = Some bi \<and>
            \<not> AlreadyDisputed c epoch bi \<and> Valid blk \<and> BiggestStake blk \<noteq> biggest \<and>
            Send c (hist @ [Visit b])
              \<lparr>call_txn = DisputeBiggestStakeProposed epoch bi,
               call_gas = EstimateGas c (DisputeBiggestStakeProposed epoch bi)\<rparr> = Some e"
  then show "handle_block c epoch biggest canon sortedIds hist b =
              [Visit b,
               Sent \<lparr>call_txn = DisputeBiggestStakeProposed epoch bi,
                     call_gas = EstimateGas c (DisputeBiggestStakeProposed epoch bi)\<rparr> (Some e),
               Logged e]"
    by (simp add: handle_block_stake [of c epoch b blk sortedIds bi biggest canon hist])
qed



theorem HandleDispute_benign_revert_witness:
  "HandleDispute (sample_chain (revert_all ''Block already has been disputed'') (Inr 30000) (two_blocks (block_of [1] [200] 4356) (block_of [1] [200] 4356))) 7 =
     (None,
      [Visit 11,
       Sent \<lparr>call_txn = DisputeBiggestStakeProposed 7 1, call_gas = 1000\<rparr>
         (Some ''Block already has been disputed''),
       Logged ''Block already has been disputed'',
       Visit 10,
       Sent \<lparr>call_txn = DisputeBiggestStakeProposed 7 0, call_gas = 1000\<rparr>
         (Some ''Block already has been disputed''),
       Logged ''Block already has been disputed'',
       Sent \<lparr>call_txn = ResetDispute 7, call_gas = 1000\<rparr>
         (Some ''Block already has been disputed'')]) \<and>
   visited (snd (HandleDispute (sample_chain (revert_all ''Block already has been disputed'') (Inr 30000) (two_blocks (block_of [1] [200] 4356) (block_of [1] [200] 4356))) 7)) = [11, 10] \<and>
   failures_logged (snd (HandleDispute (sample_chain (revert_all ''Block already has been disputed'') (Inr 30000) (two_blocks (block_of [1] [200] 4356) (block_of [1] [200] 4356))) 7))"
proof -
  have a: "GetSortedProposedBlockIds (sample_chain (revert_all ''Block already has been disputed'') (Inr 30000) (two_blocks (block_of [1] [200] 4356) (block_of [1] [200] 4356))) 7 = Inr [10, 11]"
    and b: "GetBiggestStake (sample_chain (revert_all ''Block already has been disputed'') (Inr 30000) (two_blocks (block_of [1] [200] 4356) (block_of [1] [200] 4356))) 7 = Inr 5356"
    and c: "GetLocalMediansData (sample_chain (revert_all ''Block already has been disputed'') (Inr 30000) (two_blocks (block_of [1] [200] 4356) (block_of [1] [200] 4356))) 7 = Inr (canon_of [200] [1] sample_values)"
    by (simp_all add: sample_chain_def)
  show ?thesis
    using HandleDispute_benign_revert [OF a b c]
    by (simp add: HandleDispute_def handle_block_def submit_def Let_def sample_chain_def
        two_blocks_def block_of_def revert_all_def canon_of_def)
qed

end
